theory Spec2Isabelle
  imports Complex_Main "HOL-Library.Log_Nat" "HOL-Library.AList" "HOL-Library.Multiset"
    "HOL-Library.Char_ord" "HOL-Library.List_Lexorder"
begin

section \<open>Python values used by generate_volume_data.py\<close>

subsection \<open>Exceptions\<close>

text \<open>
  Every exception the modelled code can raise is a value. \<open>RpcError\<close> stands for whatever
  the web3 provider raises (connection errors, rate limits, \<open>TransactionNotFound\<close>): the
  script only ever catches them with \<^verbatim>\<open>except Exception\<close>.
\<close>

datatype pyerror = KeyError string | ValueError | ZeroDivisionError | OverflowError | RpcError

subsection \<open>Binary floating point\<close>

text \<open>
  A Python \<^verbatim>\<open>float\<close> is an IEEE binary64 number. Its value is a rational; every
  arithmetic operation returns the exact result rounded to 53 significant bits, ties to
  even. \<open>rnd\<close> is that rounding on rationals. The exponent is unbounded here: infinities,
  NaN, signed zero and subnormal numbers (magnitudes outside \<open>2^-1022 .. 2^1024\<close>) are
  outside this model.
\<close>

definition flog2 :: "rat \<Rightarrow> int" where
  "flog2 x = (if 1 \<le> x then bitlen \<lfloor>x\<rfloor> - 1 else - bitlen (\<lceil>1 / x\<rceil> - 1))"

definition round_half_even :: "rat \<Rightarrow> int" where
  "round_half_even m =
     (let f = \<lfloor>m\<rfloor>; r = m - of_int f
      in if r < 1 / 2 then f else if 1 / 2 < r then f + 1 else if even f then f else f + 1)"

definition rnd :: "rat \<Rightarrow> rat" where
  "rnd x =
     (if x = 0 then 0
      else let e = flog2 \<bar>x\<bar> - 52
           in sgn x * of_int (round_half_even (\<bar>x\<bar> / 2 powi e)) * 2 powi e)"

definition fadd :: "rat \<Rightarrow> rat \<Rightarrow> rat" where
  "fadd x y = rnd (x + y)"

definition fsub :: "rat \<Rightarrow> rat \<Rightarrow> rat" where
  "fsub x y = rnd (x - y)"

definition fmul :: "rat \<Rightarrow> rat \<Rightarrow> rat" where
  "fmul x y = rnd (x * y)"

definition fdiv :: "rat \<Rightarrow> rat \<Rightarrow> pyerror + rat" where
  "fdiv x y = (if y = 0 then Inl ZeroDivisionError else Inr (rnd (x / y)))"

text \<open>
  \<^verbatim>\<open>n / 1e18\<close> with an \<^verbatim>\<open>int\<close> n: the integer is first converted to a float, which
  raises OverflowError when it is too large (when it rounds to \<open>2^1024\<close> or more), then
  divided.
\<close>

definition int_to_float :: "int \<Rightarrow> pyerror + rat" where
  "int_to_float n =
     (let f = rnd (of_int n)
      in if (2::int) ^ 1024 \<le> \<lfloor>\<bar>f\<bar>\<rfloor> then Inl OverflowError else Inr f)"

text \<open>
  The built-in \<^verbatim>\<open>sum\<close>: accumulation from the integer 0, left to right, each step a float
  addition (CPython up to 3.11; later versions compensate the rounding of the partial sums).
\<close>

definition pysum :: "rat list \<Rightarrow> rat" where
  "pysum xs = foldl fadd 0 xs"

subsection \<open>Strings\<close>

text \<open>\<^verbatim>\<open>str.lower()\<close> on ASCII text (addresses are ASCII).\<close>

definition lower_char :: "char \<Rightarrow> char" where
  "lower_char c = (let n = (of_char c :: nat) in if 65 \<le> n \<and> n \<le> 90 then char_of (n + 32) else c)"

definition lower :: "string \<Rightarrow> string" where
  "lower s = map lower_char s"

text \<open>
  \<^verbatim>\<open>int(s, 16)\<close> on ASCII text: surrounding whitespace is skipped, then an optional sign,
  an optional \<^verbatim>\<open>0x\<close> prefix (after which one underscore is allowed), then at least one
  hexadecimal digit, with single underscores allowed between digits. Anything else raises
  ValueError.
\<close>

definition py_isspace :: "char \<Rightarrow> bool" where
  "py_isspace c = (let n = (of_char c :: nat) in (9 \<le> n \<and> n \<le> 13) \<or> n = 32)"

definition hex_digit :: "char \<Rightarrow> int option" where
  "hex_digit c =
     (let n = (of_char c :: nat)
      in if 48 \<le> n \<and> n \<le> 57 then Some (int n - 48)
         else if 97 \<le> n \<and> n \<le> 102 then Some (int n - 87)
         else if 65 \<le> n \<and> n \<le> 70 then Some (int n - 55)
         else None)"

fun digits16 :: "int \<Rightarrow> bool \<Rightarrow> string \<Rightarrow> int option" where
  "digits16 acc prev [] = (if prev then Some acc else None)"
| "digits16 acc prev (c # cs) =
     (if c = CHR ''_'' then (if prev then digits16 acc False cs else None)
      else case hex_digit c of
             None \<Rightarrow> None
           | Some d \<Rightarrow> digits16 (16 * acc + d) True cs)"

definition strip_prefix16 :: "string \<Rightarrow> string" where
  "strip_prefix16 s =
     (case s of
        c0 # c1 # r \<Rightarrow>
          if c0 = CHR ''0'' \<and> (c1 = CHR ''x'' \<or> c1 = CHR ''X'')
          then (case r of u # r' \<Rightarrow> if u = CHR ''_'' then r' else r | [] \<Rightarrow> r)
          else s
      | _ \<Rightarrow> s)"

definition py_strip :: "string \<Rightarrow> string" where
  "py_strip s = rev (dropWhile py_isspace (rev (dropWhile py_isspace s)))"

definition py_int16 :: "string \<Rightarrow> pyerror + int" where
  "py_int16 s =
     (let t = py_strip s;
          (sign, body) = (case t of
                            c # r \<Rightarrow> if c = CHR ''+'' then (1, r)
                                     else if c = CHR ''-'' then (- 1, r) else (1, t)
                          | [] \<Rightarrow> (1, t))
      in case digits16 0 False (strip_prefix16 body) of
           None \<Rightarrow> Inl ValueError
         | Some v \<Rightarrow> Inr (sign * v))"

subsection \<open>Dictionaries\<close>

text \<open>
  A Python dict keeps insertion order, and the order matters wherever floats are summed or
  entries are ranked. A dict is therefore an association list with distinct keys:
  \<open>map_of\<close> reads it and \<open>AList.update\<close> writes it (an existing key keeps its place, a
  new key goes to the end).
\<close>

definition dict_get :: "('k \<times> 'v) list \<Rightarrow> 'k \<Rightarrow> 'v \<Rightarrow> 'v" where
  "dict_get d k dflt = (case map_of d k of None \<Rightarrow> dflt | Some v \<Rightarrow> v)"

section \<open>Configuration\<close>

definition TOTAL_BERA_TOKENS :: rat where
  "TOTAL_BERA_TOKENS = 34000"

definition POOLS :: "(string \<times> string) list" where
  "POOLS =
     [(''YEETARD'', ''0xe9171252d2EEc5BA1eefB6e2FEf62BC32c061AFA''),
      (''BULLA_1'', ''0x9c32e283aad3cB32832096873aa94994B0d9386C''),
      (''BULLA_2'', ''0xaAf5DEFf621B743f25356F7692c171dFafaeF9dC''),
      (''BULLA_3'', ''0x6DC89967820563cE095696a915237128e146965E''),
      (''BABY_BERA'', ''0x304F9c77C303Eb9445f81Ba6De3d0d516372Ea97'')]"

section \<open>get_pool_events\<close>

record raw_log =
  data :: string
  transactionHash :: string
  blockNumber :: int
  logIndex :: int

record event =
  pool :: string
  tx_hash :: string
  block_number :: int
  address :: string
  amount_in :: int
  log_index :: int

text \<open>
  The node behind \<^verbatim>\<open>w3.eth\<close>. Its answers change with time, so every request carries the
  number of requests made before it; \<open>None\<close> is a raised exception.
  \<open>get_logs n a b p\<close> answers the query for blocks a to b of contract p,
  \<open>get_transaction n h\<close> gives the \<^verbatim>\<open>from\<close> field of transaction h.
\<close>

record transport =
  get_logs :: "nat \<Rightarrow> int \<Rightarrow> int \<Rightarrow> string \<Rightarrow> raw_log list option"
  get_transaction :: "nat \<Rightarrow> string \<Rightarrow> string option"
  get_block_number :: "nat \<Rightarrow> int option"

text \<open>The two messages the scan prints, with the block range they name.\<close>

datatype out_line = Processed int int | ErrorProcessing int int

text \<open>
  The body of \<^verbatim>\<open>for log in logs\<close>. It appends to the list \<^verbatim>\<open>events\<close> of the enclosing
  function, so what was appended before an exception stays appended. The result is
  whether the loop finished, the request counter and the event list.
\<close>

fun process_logs ::
  "transport \<Rightarrow> string \<Rightarrow> raw_log list \<Rightarrow> nat \<Rightarrow> event list \<Rightarrow> bool \<times> nat \<times> event list" where
  "process_logs w3 pool_address [] clk events = (True, clk, events)"
| "process_logs w3 pool_address (lg # logs) clk events =
     (case py_int16 (take 66 (data lg)) of
        Inl e \<Rightarrow> (False, clk, events)
      | Inr amount \<Rightarrow>
          (case get_transaction w3 clk (transactionHash lg) of
             None \<Rightarrow> (False, Suc clk, events)
           | Some sender \<Rightarrow>
               process_logs w3 pool_address logs (Suc clk)
                 (events @ [\<lparr>pool = pool_address, tx_hash = transactionHash lg,
                             block_number = blockNumber lg, address = sender,
                             amount_in = amount, log_index = logIndex lg\<rparr>])))"

definition chunk_size :: int where
  "chunk_size = 5000"

text \<open>
  The \<^verbatim>\<open>while current_block <= to_block\<close> loop. It retries a failed range without bound, so
  the model counts iterations down from a fuel; \<open>None\<close> is a run that has not returned
  within the fuel.
\<close>

fun scan_loop ::
  "nat \<Rightarrow> transport \<Rightarrow> string \<Rightarrow> int \<Rightarrow> int \<Rightarrow> nat \<Rightarrow> event list \<Rightarrow> out_line list
     \<Rightarrow> (event list \<times> out_line list \<times> nat) option" where
  "scan_loop 0 w3 pool_address to_block current_block clk events out = None"
| "scan_loop (Suc fuel) w3 pool_address to_block current_block clk events out =
     (if current_block \<le> to_block then
        (let end_block = min (current_block + chunk_size) to_block
         in case get_logs w3 clk current_block end_block pool_address of
              None \<Rightarrow>
                scan_loop fuel w3 pool_address to_block current_block (Suc clk) events
                  (out @ [ErrorProcessing current_block end_block])
            | Some logs \<Rightarrow>
                (case process_logs w3 pool_address logs (Suc clk) events of
                   (True, clk', events') \<Rightarrow>
                     scan_loop fuel w3 pool_address to_block (end_block + 1) clk' events'
                       (out @ [Processed current_block end_block])
                 | (False, clk', events') \<Rightarrow>
                     scan_loop fuel w3 pool_address to_block current_block clk' events'
                       (out @ [ErrorProcessing current_block end_block])))
      else Some (events, out, clk))"

definition get_pool_events ::
  "nat \<Rightarrow> transport \<Rightarrow> nat \<Rightarrow> string \<Rightarrow> int \<Rightarrow> int option
     \<Rightarrow> (pyerror + event list \<times> out_line list \<times> nat) option" where
  "get_pool_events fuel w3 clk pool_address from_block to_block =
     (case to_block of
        None \<Rightarrow>
          (case get_block_number w3 clk of
             None \<Rightarrow> Some (Inl RpcError)
           | Some latest \<Rightarrow>
               map_option Inr (scan_loop fuel w3 pool_address latest from_block (Suc clk) [] []))
      | Some tb \<Rightarrow> map_option Inr (scan_loop fuel w3 pool_address tb from_block clk [] []))"

text \<open>The ranges of the \<open>Processed\<close> messages, in the order printed.\<close>

fun processed_ranges :: "out_line list \<Rightarrow> (int \<times> int) list" where
  "processed_ranges [] = []"
| "processed_ranges (Processed a b # out) = (a, b) # processed_ranges out"
| "processed_ranges (ErrorProcessing a b # out) = processed_ranges out"

text \<open>
  \<open>partitions f rs t\<close>: the ranges rs, each a non-empty inclusive interval, start at f,
  follow one another without gap or overlap, and end at t.
\<close>

fun partitions :: "int \<Rightarrow> (int \<times> int) list \<Rightarrow> int \<Rightarrow> bool" where
  "partitions f [] t = (f = t + 1)"
| "partitions f ((a, b) # rs) t = (a = f \<and> a \<le> b \<and> b \<le> t \<and> partitions (b + 1) rs t)"

text \<open>The number of blocks an inclusive range of block numbers holds.\<close>

definition blocks_in :: "int \<times> int \<Rightarrow> int" where
  "blocks_in r = snd r - fst r + 1"

section \<open>calculate_volumes\<close>

record address_entry =
  total_volume :: rat
  collections :: "(string \<times> rat) list"
  tx_count :: int

type_synonym address_table = "(string \<times> address_entry) list"

definition new_entry :: address_entry where
  "new_entry = \<lparr>total_volume = 0, collections = [], tx_count = 0\<rparr>"

definition collection_map :: "(string \<times> string) list" where
  "collection_map =
     [(''0xe9171252d2EEc5BA1eefB6e2FEf62BC32c061AFA'', ''YEETARD''),
      (''0x9c32e283aad3cB32832096873aa94994B0d9386C'', ''BULLA''),
      (''0xaAf5DEFf621B743f25356F7692c171dFafaeF9dC'', ''BULLA''),
      (''0x6DC89967820563cE095696a915237128e146965E'', ''BULLA''),
      (''0x304F9c77C303Eb9445f81Ba6De3d0d516372Ea97'', ''BABY_BERA'')]"

text \<open>\<^verbatim>\<open>event["amount_in"] / 1e18\<close>\<close>

definition wei_to_bera :: "int \<Rightarrow> pyerror + rat" where
  "wei_to_bera n = (case int_to_float n of Inl e \<Rightarrow> Inl e | Inr f \<Rightarrow> fdiv f (10 ^ 18))"

text \<open>
  One iteration of \<^verbatim>\<open>for event in all_events\<close>. The volume is computed and the collection
  looked up before anything is stored; the three \<^verbatim>\<open>+=\<close> (\<open>update_entry\<close>) then
  update the entry of the lower-cased address, which the defaultdict creates at the end
  of the dict when missing.
\<close>

definition update_entry :: "address_entry \<Rightarrow> string \<Rightarrow> rat \<Rightarrow> address_entry" where
  "update_entry r collection volume =
     (let r1 = r\<lparr>total_volume := fadd (total_volume r) volume\<rparr>;
          r2 = r1\<lparr>collections :=
                 AList.update collection
                   (fadd (dict_get (collections r1) collection 0) volume)
                   (collections r1)\<rparr>
      in r2\<lparr>tx_count := tx_count r2 + 1\<rparr>)"

definition add_event :: "address_table \<Rightarrow> event \<Rightarrow> pyerror + address_table" where
  "add_event ad ev =
     (let a = lower (address ev); p = pool ev
      in case wei_to_bera (amount_in ev) of
           Inl e \<Rightarrow> Inl e
         | Inr volume \<Rightarrow>
             (case map_of collection_map p of
                None \<Rightarrow> Inl (KeyError p)
              | Some collection \<Rightarrow>
                  Inr (AList.update a (update_entry (dict_get ad a new_entry) collection volume)
                         ad)))"

fun calculate_volumes_loop :: "address_table \<Rightarrow> event list \<Rightarrow> pyerror + address_table" where
  "calculate_volumes_loop ad [] = Inr ad"
| "calculate_volumes_loop ad (ev # evs) =
     (case add_event ad ev of
        Inl e \<Rightarrow> Inl e
      | Inr ad' \<Rightarrow> calculate_volumes_loop ad' evs)"

definition calculate_volumes :: "event list \<Rightarrow> pyerror + address_table" where
  "calculate_volumes all_events = calculate_volumes_loop [] all_events"

section \<open>distribute_by_collection\<close>

type_synonym volumes = "(string \<times> rat) list"

definition collection_volumes_init :: "(string \<times> volumes) list" where
  "collection_volumes_init = [(''YEETARD'', []), (''BULLA'', []), (''BABY_BERA'', [])]"

text \<open>
  \<^verbatim>\<open>for collection, volume in data["collections"].items()\<close> for one address:
  \<^verbatim>\<open>collection_volumes[collection]\<close> raises KeyError for a collection that is not one of
  the three.
\<close>

fun group_collections ::
  "string \<Rightarrow> volumes \<Rightarrow> (string \<times> volumes) list \<Rightarrow> pyerror + (string \<times> volumes) list" where
  "group_collections a [] cv = Inr cv"
| "group_collections a ((collection, volume) # cs) cv =
     (if 0 < volume then
        (case map_of cv collection of
           None \<Rightarrow> Inl (KeyError collection)
         | Some addresses \<Rightarrow>
             group_collections a cs (AList.update collection (AList.update a volume addresses) cv))
      else group_collections a cs cv)"

fun group_addresses ::
  "address_table \<Rightarrow> (string \<times> volumes) list \<Rightarrow> pyerror + (string \<times> volumes) list" where
  "group_addresses [] cv = Inr cv"
| "group_addresses ((a, d) # ad) cv =
     (case group_collections a (collections d) cv of
        Inl e \<Rightarrow> Inl e
      | Inr cv' \<Rightarrow> group_addresses ad cv')"

text \<open>
  \<^verbatim>\<open>for address, volume in addresses.items()\<close> inside one collection whose summed
  volume is \<open>total_vol\<close>; \<^verbatim>\<open>distribution\<close> is a \<^verbatim>\<open>defaultdict(float)\<close>.
\<close>

fun allocate_addresses :: "rat \<Rightarrow> rat \<Rightarrow> volumes \<Rightarrow> volumes \<Rightarrow> pyerror + volumes" where
  "allocate_addresses total_vol tokens_per_collection [] distribution = Inr distribution"
| "allocate_addresses total_vol tokens_per_collection ((a, volume) # avs) distribution =
     (case fdiv volume total_vol of
        Inl e \<Rightarrow> Inl e
      | Inr q \<Rightarrow>
          allocate_addresses total_vol tokens_per_collection avs
            (AList.update a (fadd (dict_get distribution a 0) (fmul q tokens_per_collection))
               distribution))"

fun allocate_collections :: "rat \<Rightarrow> (string \<times> volumes) list \<Rightarrow> volumes \<Rightarrow> pyerror + volumes" where
  "allocate_collections tokens_per_collection [] distribution = Inr distribution"
| "allocate_collections tokens_per_collection ((collection, addresses) # cvs) distribution =
     (let total_collection_volume = pysum (map snd addresses)
      in if 0 < total_collection_volume then
           (case allocate_addresses total_collection_volume tokens_per_collection addresses
                   distribution of
              Inl e \<Rightarrow> Inl e
            | Inr distribution' \<Rightarrow> allocate_collections tokens_per_collection cvs distribution')
         else allocate_collections tokens_per_collection cvs distribution)"

definition distribute_by_collection :: "address_table \<Rightarrow> rat \<Rightarrow> pyerror + volumes" where
  "distribute_by_collection ad total_tokens =
     (case group_addresses ad collection_volumes_init of
        Inl e \<Rightarrow> Inl e
      | Inr collection_volumes \<Rightarrow>
          (let tokens_per_collection = rnd (total_tokens / 3)
           in allocate_collections tokens_per_collection collection_volumes []))"

section \<open>distribute_by_total_volume\<close>

text \<open>
  \<^verbatim>\<open>(data["total_volume"] / total_volume) * total_tokens\<close>: the quotient is a float, and
  \<^verbatim>\<open>main\<close> passes the supply as the \<^verbatim>\<open>int\<close> 34000, which the product first converts to a
  float (\<open>rnd\<close>; a supply that is a float already is left as it is).
\<close>

fun allocate_by_volume :: "rat \<Rightarrow> rat \<Rightarrow> address_table \<Rightarrow> volumes \<Rightarrow> pyerror + volumes" where
  "allocate_by_volume total_vol total_tokens [] distribution = Inr distribution"
| "allocate_by_volume total_vol total_tokens ((a, d) # ad) distribution =
     (if 0 < total_vol then
        (case fdiv (total_volume d) total_vol of
           Inl e \<Rightarrow> Inl e
         | Inr q \<Rightarrow>
             allocate_by_volume total_vol total_tokens ad
               (AList.update a (fmul q (rnd total_tokens)) distribution))
      else allocate_by_volume total_vol total_tokens ad (AList.update a 0 distribution))"

definition distribute_by_total_volume :: "address_table \<Rightarrow> rat \<Rightarrow> pyerror + volumes" where
  "distribute_by_total_volume ad total_tokens =
     allocate_by_volume (pysum (map (\<lambda>(a, d). total_volume d) ad)) total_tokens ad []"

section \<open>main: results and ranking\<close>

record allocation_entry =
  allocation :: rat
  address_data :: address_entry

text \<open>
  \<^verbatim>\<open>sorted(items, key=..., reverse=True)\<close>: the list is reversed, sorted stably in
  ascending order of the key, and reversed again.
\<close>

definition sorted_reverse :: "('a \<Rightarrow> 'k::linorder) \<Rightarrow> 'a list \<Rightarrow> 'a list" where
  "sorted_reverse key xs = rev (sort_key key (rev xs))"

definition build_results :: "address_table \<Rightarrow> volumes \<Rightarrow> (string \<times> allocation_entry) list" where
  "build_results ad distribution =
     map (\<lambda>(a, d). (a, \<lparr>allocation = dict_get distribution a 0, address_data = d\<rparr>)) ad"

definition rank :: "(string \<times> allocation_entry) list \<Rightarrow> (string \<times> allocation_entry) list" where
  "rank results = sorted_reverse (\<lambda>x. allocation (snd x)) results"

text \<open>
  \<^verbatim>\<open>main\<close> from the events on: volumes, the two distributions, the two result tables
  and their rankings. No exception is caught here: an error ends the run.
\<close>

definition main_from_events ::
  "event list \<Rightarrow> pyerror + (string \<times> allocation_entry) list \<times> (string \<times> allocation_entry) list" where
  "main_from_events all_events =
     (case calculate_volumes all_events of
        Inl e \<Rightarrow> Inl e
      | Inr ad \<Rightarrow>
          (case distribute_by_collection ad TOTAL_BERA_TOKENS of
             Inl e \<Rightarrow> Inl e
           | Inr collection_distribution \<Rightarrow>
               (case distribute_by_total_volume ad TOTAL_BERA_TOKENS of
                  Inl e \<Rightarrow> Inl e
                | Inr volume_distribution \<Rightarrow>
                    Inr (rank (build_results ad collection_distribution),
                         rank (build_results ad volume_distribution)))))"

section \<open>Vocabulary of the properties\<close>

text \<open>A raw amount as the event carries it: an unsigned 256-bit integer.\<close>

definition uint256 :: "int \<Rightarrow> bool" where
  "uint256 n = (0 \<le> n \<and> n < 2 ^ 256)"

definition known_pool :: "string \<Rightarrow> bool" where
  "known_pool p = (map_of collection_map p \<noteq> None)"

text \<open>
  Two addresses differ only in letter casing: they have the same length, and at every
  position the two characters are equal or are the upper-case and the lower-case form of
  one ASCII letter (\<open>A\<close> to \<open>Z\<close> are the codes 65 to 90, the lower-case form is 32 higher).
\<close>

definition is_upper :: "char \<Rightarrow> bool" where
  "is_upper c = (65 \<le> (of_char c :: nat) \<and> (of_char c :: nat) \<le> 90)"

definition same_letter :: "char \<Rightarrow> char \<Rightarrow> bool" where
  "same_letter c d =
     (c = d \<or> (is_upper c \<and> (of_char d :: nat) = of_char c + 32)
            \<or> (is_upper d \<and> (of_char c :: nat) = of_char d + 32))"

definition differ_only_in_case :: "string \<Rightarrow> string \<Rightarrow> bool" where
  "differ_only_in_case a b = list_all2 same_letter a b"

text \<open>The events of one address, compared after lower-casing, in input order.\<close>

definition trades_of :: "string \<Rightarrow> event list \<Rightarrow> event list" where
  "trades_of a evs = filter (\<lambda>e. lower (address e) = a) evs"

text \<open>What \<open>add_event\<close> computes from one event when it raises nothing.\<close>

definition event_volume :: "event \<Rightarrow> rat" where
  "event_volume ev = (case wei_to_bera (amount_in ev) of Inl e \<Rightarrow> 0 | Inr v \<Rightarrow> v)"

definition event_collection :: "event \<Rightarrow> string" where
  "event_collection ev = dict_get collection_map (pool ev) []"

definition apply_event :: "address_entry \<Rightarrow> event \<Rightarrow> address_entry" where
  "apply_event r ev = update_entry r (event_collection ev) (event_volume ev)"

text \<open>
  The exact sum of the volumes of the events of one address, in all and on one collection.
\<close>

definition exact_volume :: "string \<Rightarrow> event list \<Rightarrow> rat" where
  "exact_volume a evs = sum_list (map event_volume (trades_of a evs))"

definition exact_collection_volume :: "string \<Rightarrow> string \<Rightarrow> event list \<Rightarrow> rat" where
  "exact_collection_volume a c evs =
     sum_list (map event_volume (filter (\<lambda>e. event_collection e = c) (trades_of a evs)))"

text \<open>
  The order the specification words for the ranking: larger allocation first, and among
  equal allocations the smaller address first.
\<close>

definition spec_before ::
  "string \<times> allocation_entry \<Rightarrow> string \<times> allocation_entry \<Rightarrow> bool" where
  "spec_before x y =
     (allocation (snd y) < allocation (snd x)
      \<or> (allocation (snd x) = allocation (snd y) \<and> fst x \<le> fst y))"

text \<open>The value of a string of hexadecimal digits, most significant first.\<close>

definition hex_value :: "string \<Rightarrow> int" where
  "hex_value ds = foldl (\<lambda>acc c. 16 * acc + the (hex_digit c)) 0 ds"

text \<open>The three collections the by-collection distribution knows.\<close>

definition collection_names :: "string list" where
  "collection_names = [''YEETARD'', ''BULLA'', ''BABY_BERA'']"

text \<open>
  A table as the aggregation builds it from 256-bit amounts: addresses are distinct, and
  in every entry the volumes are not negative, the collections are distinct and among
  the three.
\<close>

definition valid_entry :: "address_entry \<Rightarrow> bool" where
  "valid_entry r =
     (0 \<le> total_volume r \<and> distinct (map fst (collections r))
      \<and> (\<forall>cv \<in> set (collections r). 0 \<le> snd cv \<and> fst cv \<in> set collection_names))"

definition valid_table :: "address_table \<Rightarrow> bool" where
  "valid_table ad = (distinct (map fst ad) \<and> (\<forall>ar \<in> set ad. valid_entry (snd ar)))"

text \<open>
  The magnitudes of a run. A 256-bit amount of at least 1 wei gives a volume between
  \<open>10^-18\<close> and \<open>2^197\<close>. A volume is in range when it is 0 or lies between \<open>2^-64\<close> and
  \<open>2^256\<close>; a table is in range when it has at most \<open>2^32\<close> addresses and every volume it
  stores is in range.
\<close>

definition volume_in_range :: "rat \<Rightarrow> bool" where
  "volume_in_range v = (v = 0 \<or> (1 / 2 ^ 64 \<le> v \<and> v \<le> 2 ^ 256))"

definition table_in_range :: "address_table \<Rightarrow> bool" where
  "table_in_range ad =
     (length ad \<le> 2 ^ 32
      \<and> (\<forall>ar \<in> set ad. volume_in_range (total_volume (snd ar))
             \<and> (\<forall>cv \<in> set (collections (snd ar)). volume_in_range (snd cv))))"

text \<open>The relative error of one rounding to 53 bits is at most \<open>2^-53\<close>.\<close>

definition unit_roundoff :: rat where
  "unit_roundoff = 1 / 2 ^ 53"

text \<open>\<open>near k S x\<close>: the float \<open>x\<close> is the exact sum \<open>S\<close> up to k roundings.\<close>

definition near :: "nat \<Rightarrow> rat \<Rightarrow> rat \<Rightarrow> bool" where
  "near k S x = ((1 - unit_roundoff) ^ k * S \<le> x \<and> x \<le> (1 + unit_roundoff) ^ k * S)"

text \<open>What \<open>allocate_by_volume\<close> stores for one entry, given the summed volume \<open>tv\<close>.\<close>

definition volume_share :: "rat \<Rightarrow> rat \<Rightarrow> address_entry \<Rightarrow> rat" where
  "volume_share tv T d = (if 0 < tv then fmul (rnd (total_volume d / tv)) (rnd T) else 0)"

text \<open>
  The dicts \<open>distribute_by_collection\<close> builds, in closed form. \<open>contrib a cs c\<close> is what
  one address with collection volumes cs adds to collection c, \<open>members ad c\<close> the
  \<^verbatim>\<open>collection_volumes[c]\<close> the first loop ends with, and \<open>tab f\<close> the dict of the three
  collections with values f.
\<close>

definition contrib :: "string \<Rightarrow> volumes \<Rightarrow> string \<Rightarrow> volumes" where
  "contrib a cs c = map (\<lambda>cv. (a, snd cv)) (filter (\<lambda>cv. fst cv = c \<and> 0 < snd cv) cs)"

definition members :: "address_table \<Rightarrow> string \<Rightarrow> volumes" where
  "members ad c = concat (map (\<lambda>ar. contrib (fst ar) (collections (snd ar)) c) ad)"

definition tab :: "(string \<Rightarrow> volumes) \<Rightarrow> (string \<times> volumes) list" where
  "tab f = map (\<lambda>c. (c, f c)) collection_names"

text \<open>One allocation inside a collection of summed volume \<open>tot\<close>.\<close>

definition share :: "rat \<Rightarrow> rat \<Rightarrow> rat \<Rightarrow> rat" where
  "share tot tpc v = fmul (rnd (v / tot)) tpc"

text \<open>
  \<open>sum_within m X d\<close>: the values of d are not negative and their exact sum is X up to m
  roundings.
\<close>

definition sum_within :: "nat \<Rightarrow> rat \<Rightarrow> volumes \<Rightarrow> bool" where
  "sum_within m X d =
     ((\<forall>kv \<in> set d. 0 \<le> snd kv)
      \<and> (1 - unit_roundoff) ^ m * X \<le> sum_list (map snd d)
      \<and> sum_list (map snd d) \<le> (1 + unit_roundoff) ^ m * X)"

text \<open>
  The exact volume of a collection, the collections without volume, and the supply
  less one third of it for each of them.
\<close>

definition collection_total :: "address_table \<Rightarrow> string \<Rightarrow> rat" where
  "collection_total ad c = sum_list (map (\<lambda>ar. dict_get (collections (snd ar)) c 0) ad)"

definition zero_volume_collections :: "address_table \<Rightarrow> string list" where
  "zero_volume_collections ad = filter (\<lambda>c. collection_total ad c = 0) collection_names"

definition distributable :: "address_table \<Rightarrow> rat \<Rightarrow> rat" where
  "distributable ad T = T - of_nat (length (zero_volume_collections ad)) * (T / 3)"

text \<open>
  Over the collections with positive summed volume: the number of allocations added, and
  the exact sum of the allocations added.
\<close>

definition collection_updates :: "(string \<times> volumes) list \<Rightarrow> nat" where
  "collection_updates cvs =
     sum_list (map (\<lambda>cv. if 0 < pysum (map snd (snd cv)) then length (snd cv) else 0) cvs)"

definition collection_ideal :: "rat \<Rightarrow> (string \<times> volumes) list \<Rightarrow> rat" where
  "collection_ideal tpc cvs =
     sum_list (map (\<lambda>cv. if 0 < pysum (map snd (snd cv))
                           then sum_list (map (\<lambda>av. share (pysum (map snd (snd cv))) tpc (snd av)) (snd cv))
                           else 0) cvs)"

section \<open>Concrete inputs\<close>

definition trade :: "string \<Rightarrow> string \<Rightarrow> int \<Rightarrow> int \<Rightarrow> event" where
  "trade p a n i =
     \<lparr>pool = p, tx_hash = ''0x01'', block_number = 1, address = a, amount_in = n, log_index = i\<rparr>"

definition YEETARD_POOL :: string where
  "YEETARD_POOL = ''0xe9171252d2EEc5BA1eefB6e2FEf62BC32c061AFA''"

definition BULLA_POOL :: string where
  "BULLA_POOL = ''0x9c32e283aad3cB32832096873aa94994B0d9386C''"

text \<open>Two trades of one account, written in two casings, and a trade on an unlisted pool.\<close>

definition two_casings :: "event list" where
  "two_casings = [trade YEETARD_POOL ''0xAb'' (10 ^ 18) 0, trade BULLA_POOL ''0xaB'' (10 ^ 18) 1]"

definition unlisted_pool :: "event list" where
  "unlisted_pool =
     [trade YEETARD_POOL ''0xab'' (10 ^ 18) 0,
      trade ''0xe9171252d2eec5ba1eefb6e2fef62bc32c061afa'' ''0xab'' (10 ^ 18) 1]"

text \<open>Two accounts with the same volume; the one trading first has the larger address.\<close>

definition tied_trades :: "event list" where
  "tied_trades = [trade YEETARD_POOL ''0xb'' (10 ^ 18) 0, trade YEETARD_POOL ''0xa'' (10 ^ 18) 1]"

definition one_yeetard :: address_entry where
  "one_yeetard = \<lparr>total_volume = 1, collections = [(''YEETARD'', 1)], tx_count = 1\<rparr>"

definition tied_results :: "(string \<times> allocation_entry) list" where
  "tied_results =
     [(''0xb'', \<lparr>allocation = 17000, address_data = one_yeetard\<rparr>),
      (''0xa'', \<lparr>allocation = 17000, address_data = one_yeetard\<rparr>)]"

text \<open>A node with no logs, whose latest block is 5000.\<close>

definition quiet_node :: transport where
  "quiet_node =
     \<lparr>get_logs = (\<lambda>n a b p. Some []),
      get_transaction = (\<lambda>n h. Some ''0xab''),
      get_block_number = (\<lambda>n. Some 5000)\<rparr>"

text \<open>
  A node with two logs in block 0. Its third answer, the lookup of the second log's
  transaction, fails; every other request succeeds.
\<close>

definition log_a :: raw_log where
  "log_a = \<lparr>data = ''0x01'', transactionHash = ''0xaa'', blockNumber = 0, logIndex = 0\<rparr>"

definition log_b :: raw_log where
  "log_b = \<lparr>data = ''0x02'', transactionHash = ''0xbb'', blockNumber = 0, logIndex = 1\<rparr>"

definition flaky_node :: transport where
  "flaky_node =
     \<lparr>get_logs = (\<lambda>n a b p. Some [log_a, log_b]),
      get_transaction = (\<lambda>n h. if n = 2 then None else Some ''0xab''),
      get_block_number = (\<lambda>n. Some 0)\<rparr>"

definition event_a :: event where
  "event_a = \<lparr>pool = YEETARD_POOL, tx_hash = ''0xaa'', block_number = 0, address = ''0xab'',
               amount_in = 1, log_index = 0\<rparr>"

definition event_b :: event where
  "event_b = \<lparr>pool = YEETARD_POOL, tx_hash = ''0xbb'', block_number = 0, address = ''0xab'',
               amount_in = 2, log_index = 1\<rparr>"

text \<open>A node with one log, whose data payload is a single byte.\<close>

definition short_node :: transport where
  "short_node =
     \<lparr>get_logs = (\<lambda>n a b p. Some [log_a]),
      get_transaction = (\<lambda>n h. Some ''0xab''),
      get_block_number = (\<lambda>n. Some 0)\<rparr>"

text \<open>Three accounts on one pool with volumes 1, 4 and 1; an account whose trade is of amount 0.\<close>

definition uneven_trades :: "event list" where
  "uneven_trades =
     [trade YEETARD_POOL ''0xa'' (10 ^ 18) 0,
      trade YEETARD_POOL ''0xb'' (4 * 10 ^ 18) 1,
      trade YEETARD_POOL ''0xc'' (10 ^ 18) 2]"

definition uneven_table :: address_table where
  "uneven_table =
     [(''0xa'', \<lparr>total_volume = 1, collections = [(''YEETARD'', 1)], tx_count = 1\<rparr>),
      (''0xb'', \<lparr>total_volume = 4, collections = [(''YEETARD'', 4)], tx_count = 1\<rparr>),
      (''0xc'', \<lparr>total_volume = 1, collections = [(''YEETARD'', 1)], tx_count = 1\<rparr>)]"

definition zero_table :: address_table where
  "zero_table = [(''0xa'', \<lparr>total_volume = 0, collections = [(''YEETARD'', 0)], tx_count = 1\<rparr>)]"

text \<open>One trade; and an account with volume next to one whose only trade is of amount 0.\<close>

definition one_trade :: "event list" where
  "one_trade = [trade YEETARD_POOL ''0xa'' (10 ^ 18) 0]"

definition one_table :: address_table where
  "one_table = [(''0xa'', one_yeetard)]"

definition idle_table :: address_table where
  "idle_table =
     [(''0xa'', one_yeetard),
      (''0xd'', \<lparr>total_volume = 0, collections = [(''BULLA'', 0)], tx_count = 1\<rparr>)]"

text \<open>
  Three trades of one account, of 0.1, 0.2 and 0.3 tokens, and the tables the aggregation
  builds from them in this order and in the reverse order.
\<close>

definition drift_trades :: "event list" where
  "drift_trades =
     [trade YEETARD_POOL ''0xa'' (10 ^ 17) 0,
      trade YEETARD_POOL ''0xa'' (2 * 10 ^ 17) 1,
      trade YEETARD_POOL ''0xa'' (3 * 10 ^ 17) 2]"

definition drift_table :: address_table where
  "drift_table =
     [(''0xa'', \<lparr>total_volume = 1351079888211149 / 2251799813685248,
                 collections = [(''YEETARD'', 1351079888211149 / 2251799813685248)],
                 tx_count = 3\<rparr>)]"

definition drift_table_rev :: address_table where
  "drift_table_rev =
     [(''0xa'', \<lparr>total_volume = 5404319552844595 / 9007199254740992,
                 collections = [(''YEETARD'', 5404319552844595 / 9007199254740992)],
                 tx_count = 3\<rparr>)]"

section \<open>Rounding: error bound and sign\<close>

lemma flog2_lower:
  assumes "0 < x"
  shows "2 powi (flog2 x) \<le> x"
proof (cases "1 \<le> x")
  case True
  define n where "n = \<lfloor>x\<rfloor>"
  have n: "0 < n" using True by (simp add: n_def)
  have "(2::int) ^ nat (bitlen n - 1) \<le> n" using bitlen_bounds[OF n] by simp
  then have "(of_int ((2::int) ^ nat (bitlen n - 1)) :: rat) \<le> of_int n"
    by (simp only: of_int_le_iff)
  also have "\<dots> \<le> x" by (simp add: n_def)
  finally have "(2::rat) ^ nat (bitlen n - 1) \<le> x" by simp
  moreover have "0 \<le> bitlen n - 1" using n bitlen_eq_zero_iff[of n] bitlen_nonneg[of n] by linarith
  ultimately show ?thesis using True by (simp add: flog2_def n_def power_int_def)
next
  case False
  define c where "c = \<lceil>1 / x\<rceil>"
  define k where "k = bitlen (c - 1)"
  have y: "1 < 1 / x" using False assms by simp
  then have c: "0 < c - 1" unfolding c_def by (simp add: less_ceiling_iff)
  have "c - 1 < (2::int) ^ nat k" using bitlen_bounds[OF c] by (simp add: k_def)
  then have "c \<le> 2 ^ nat k" by simp
  then have "(of_int c :: rat) \<le> of_int (2 ^ nat k)" by (simp only: of_int_le_iff)
  moreover have "1 / x \<le> of_int c" unfolding c_def by (rule le_of_int_ceiling)
  ultimately have "1 / x \<le> of_int (2 ^ nat k)" by (rule order_trans[rotated])
  then have "1 / x \<le> 2 ^ nat k" by simp
  then have "1 \<le> 2 ^ nat k * x" using assms by (simp add: field_simps)
  then have "1 / 2 ^ nat k \<le> x" by (simp add: field_simps)
  moreover have "1 \<le> k" using c bitlen_eq_zero_iff[of "c - 1"] bitlen_nonneg[of "c - 1"]
    unfolding k_def by linarith
  ultimately show ?thesis using False
    by (simp add: flog2_def c_def[symmetric] k_def[symmetric] power_int_def inverse_eq_divide power_one_over)
qed

lemma flog2_upper:
  assumes "0 < x"
  shows "x < 2 powi (flog2 x + 1)"
proof (cases "1 \<le> x")
  case True
  define n where "n = \<lfloor>x\<rfloor>"
  have n: "0 < n" using True by (simp add: n_def)
  have "n < (2::int) ^ nat (bitlen n)" using bitlen_bounds[OF n] by simp
  then have "n + 1 \<le> 2 ^ nat (bitlen n)" by simp
  then have "(of_int (n + 1) :: rat) \<le> of_int (2 ^ nat (bitlen n))" by (simp only: of_int_le_iff)
  moreover have "x < of_int (n + 1)" unfolding n_def by linarith
  ultimately have "x < 2 ^ nat (bitlen n)" by simp
  then show ?thesis using True bitlen_nonneg[of n] by (simp add: flog2_def n_def power_int_def)
next
  case False
  define c where "c = \<lceil>1 / x\<rceil>"
  define k where "k = bitlen (c - 1)"
  have y: "1 < 1 / x" using False assms by simp
  then have c: "0 < c - 1" unfolding c_def by (simp add: less_ceiling_iff)
  have k1: "1 \<le> k" using c bitlen_eq_zero_iff[of "c - 1"] bitlen_nonneg[of "c - 1"]
    unfolding k_def by linarith
  have "(2::int) ^ nat (k - 1) \<le> c - 1" using bitlen_bounds[OF c] by (simp add: k_def)
  then have "(of_int ((2::int) ^ nat (k - 1)) :: rat) \<le> of_int (c - 1)" by (simp only: of_int_le_iff)
  moreover have "of_int (c - 1) < 1 / x" unfolding c_def by linarith
  ultimately have "(2::rat) ^ nat (k - 1) < 1 / x" by simp
  then have "2 ^ nat (k - 1) * x < 1" using assms by (simp add: field_simps)
  then have "x < 1 / 2 ^ nat (k - 1)" by (simp add: field_simps)
  then show ?thesis using False k1
    by (cases "k = 1") (simp_all add: flog2_def c_def[symmetric] k_def[symmetric] power_int_def inverse_eq_divide power_one_over)
qed

lemma round_half_even_err: "\<bar>of_int (round_half_even m) - m\<bar> \<le> 1 / 2"
proof -
  have "of_int \<lfloor>m\<rfloor> \<le> m" "m < of_int \<lfloor>m\<rfloor> + 1" by linarith+
  then show ?thesis by (auto simp: round_half_even_def Let_def)
qed

lemma round_half_even_ge:
  assumes "of_int k \<le> m"
  shows "k \<le> round_half_even m"
proof -
  have "k \<le> \<lfloor>m\<rfloor>" using assms by (simp add: le_floor_iff)
  then show ?thesis by (simp add: round_half_even_def Let_def)
qed

lemma rnd_zero: "rnd 0 = 0"
  by (simp add: rnd_def)

lemma rnd_scaled:
  assumes "0 < x"
  defines "e \<equiv> flog2 x - 52"
  shows "2 ^ 52 \<le> x / 2 powi e" and "x / 2 powi e < 2 ^ 53"
proof -
  have p: "(0::rat) < 2 powi e" by simp
  have "flog2 x = e + 52" by (simp add: e_def)
  then have "2 powi (flog2 x) = (2::rat) powi e * 2 ^ 52"
    by (simp add: power_int_add)
  then have "2 powi e * 2 ^ 52 \<le> x" using flog2_lower[OF assms(1)] by simp
  then show "2 ^ 52 \<le> x / 2 powi e" using p by (simp add: pos_le_divide_eq mult.commute)
  have "flog2 x + 1 = e + 53" by (simp add: e_def)
  then have "2 powi (flog2 x + 1) = (2::rat) powi e * 2 ^ 53"
    by (simp add: power_int_add)
  then have "x < 2 powi e * 2 ^ 53" using flog2_upper[OF assms(1)] by simp
  then show "x / 2 powi e < 2 ^ 53" using p by (simp add: pos_divide_less_eq mult.commute)
qed

lemma rnd_rel_err: "\<bar>rnd x - x\<bar> \<le> \<bar>x\<bar> / 2 ^ 53"
proof (cases "x = 0")
  case True
  then show ?thesis by (simp add: rnd_def)
next
  case False
  define e where "e = flog2 \<bar>x\<bar> - 52"
  define m where "m = \<bar>x\<bar> / 2 powi e"
  define n where "n = round_half_even m"
  have ax: "0 < \<bar>x\<bar>" using False by simp
  have p: "(0::rat) < 2 powi e" by simp
  have m52: "2 ^ 52 \<le> m" unfolding m_def e_def by (rule rnd_scaled(1)[OF ax])
  have xm: "\<bar>x\<bar> = m * 2 powi e" unfolding m_def by simp
  have r: "rnd x = sgn x * (of_int n * 2 powi e)"
    using False by (simp add: rnd_def Let_def e_def m_def n_def)
  have "x = sgn x * \<bar>x\<bar>" by (simp add: sgn_mult_abs)
  then have "rnd x - x = sgn x * (of_int n * 2 powi e - \<bar>x\<bar>)"
    unfolding r by (simp add: algebra_simps)
  then have "\<bar>rnd x - x\<bar> = \<bar>of_int n * 2 powi e - \<bar>x\<bar>\<bar>"
    using False by (simp add: abs_mult abs_sgn_eq)
  also have "\<dots> = \<bar>of_int n - m\<bar> * 2 powi e"
    unfolding xm by (simp add: left_diff_distrib[symmetric] abs_mult)
  also have "\<dots> \<le> (1 / 2) * 2 powi e"
    unfolding n_def using round_half_even_err[of m] p by (simp add: mult_right_mono)
  also have "\<dots> \<le> (m / 2 ^ 53) * 2 powi e"
  proof -
    have "(1::rat) / 2 \<le> m / 2 ^ 53" using m52 by simp
    then show ?thesis using p by (simp add: mult_right_mono)
  qed
  also have "\<dots> = \<bar>x\<bar> / 2 ^ 53" unfolding xm by simp
  finally show ?thesis .
qed

lemma rnd_bounds:
  assumes "0 \<le> x"
  shows "(1 - 1 / 2 ^ 53) * x \<le> rnd x" and "rnd x \<le> (1 + 1 / 2 ^ 53) * x"
proof -
  have "\<bar>rnd x - x\<bar> \<le> x / 2 ^ 53" using rnd_rel_err[of x] assms by simp
  then have a: "rnd x - x \<le> x / 2 ^ 53" and b: "x - rnd x \<le> x / 2 ^ 53"
    by linarith+
  have c: "(1 - 1 / 2 ^ 53) * x = x - x / 2 ^ 53" "(1 + 1 / 2 ^ 53) * x = x + x / 2 ^ 53"
    by (simp_all add: algebra_simps)
  show "(1 - 1 / 2 ^ 53) * x \<le> rnd x" unfolding c using b by linarith
  show "rnd x \<le> (1 + 1 / 2 ^ 53) * x" unfolding c using a by linarith
qed

lemma rnd_nonneg: "0 \<le> x \<Longrightarrow> 0 \<le> rnd x"
  using rnd_bounds(1)[of x] by (simp add: order_trans[rotated])

lemma rnd_pos:
  assumes "0 < x"
  shows "0 < rnd x"
proof -
  have "0 < (1 - 1 / 2 ^ 53) * x" using assms by simp
  then show ?thesis using rnd_bounds(1)[of x] assms by linarith
qed

section \<open>Aggregation: failure and the entries built\<close>

lemma uint256_rat:
  assumes "uint256 n"
  shows "(0::rat) \<le> of_int n" and "(of_int n :: rat) < 2 ^ 256"
proof -
  show "(0::rat) \<le> of_int n" using assms by (simp add: uint256_def)
  have "n < 2 ^ 256" using assms by (simp only: uint256_def)
  then have "(of_int n :: rat) < of_int (2 ^ 256)" by (simp only: of_int_less_iff)
  then show "(of_int n :: rat) < 2 ^ 256" by (simp only: of_int_power of_int_numeral)
qed

lemma pow_cmp: "2 * (2::rat) ^ 256 \<le> 2 ^ 1024"
proof -
  have "2 * (2::rat) ^ 256 = 2 ^ 257" by (simp only: power_Suc[symmetric]) simp
  also have "\<dots> \<le> 2 ^ 1024" by (rule power_increasing) simp_all
  finally show ?thesis .
qed

lemma int_to_float_uint256:
  assumes "uint256 n"
  shows "int_to_float n = Inr (rnd (of_int n))"
proof -
  note n = uint256_rat[OF assms]
  have "rnd (of_int n) \<le> (1 + 1 / 2 ^ 53) * of_int n" by (rule rnd_bounds(2)[OF n(1)])
  also have "\<dots> \<le> 2 * of_int n" using n(1) by (intro mult_right_mono) simp_all
  also have "\<dots> < 2 * 2 ^ 256" using n(2) by (simp only: mult_less_cancel_left_pos zero_less_numeral)
  also have "\<dots> \<le> (2::rat) ^ 1024" by (rule pow_cmp)
  finally have "rnd (of_int n) < 2 ^ 1024" .
  moreover have "0 \<le> rnd (of_int n)" by (rule rnd_nonneg[OF n(1)])
  ultimately have "\<bar>rnd (of_int n)\<bar> < of_int ((2::int) ^ 1024)"
    by (simp only: abs_of_nonneg of_int_power of_int_numeral)
  then have "\<not> (2::int) ^ 1024 \<le> \<lfloor>\<bar>rnd (of_int n)\<bar>\<rfloor>"
    by (simp only: floor_less_iff[symmetric] not_le)
  then show ?thesis unfolding int_to_float_def Let_def by (simp only: if_False)
qed

lemma wei_to_bera_uint256:
  assumes "uint256 n"
  shows "wei_to_bera n = Inr (rnd (rnd (of_int n) / 10 ^ 18))"
  unfolding wei_to_bera_def int_to_float_uint256[OF assms] by (simp add: fdiv_def)

lemma event_volume_nonneg:
  assumes "uint256 (amount_in ev)"
  shows "0 \<le> event_volume ev"
proof -
  have "(0::rat) \<le> of_int (amount_in ev)" by (rule uint256_rat(1)[OF assms])
  then have "0 \<le> rnd (of_int (amount_in ev)) / 10 ^ 18" by (simp add: rnd_nonneg)
  then have "0 \<le> rnd (rnd (of_int (amount_in ev)) / 10 ^ 18)" by (rule rnd_nonneg)
  then show ?thesis by (simp add: event_volume_def wei_to_bera_uint256[OF assms])
qed

lemma add_event_Inr_iff:
  "add_event ad ev = Inr ad' \<longleftrightarrow>
     (\<exists>v. wei_to_bera (amount_in ev) = Inr v) \<and> known_pool (pool ev) \<and>
     ad' = AList.update (lower (address ev)) (apply_event (dict_get ad (lower (address ev)) new_entry) ev) ad"
  by (auto simp: add_event_def Let_def known_pool_def apply_event_def event_volume_def
        event_collection_def dict_get_def split: sum.splits option.splits)

lemma add_event_unknown_pool:
  assumes "uint256 (amount_in ev)" and "\<not> known_pool (pool ev)"
  shows "add_event ad ev = Inl (KeyError (pool ev))"
  using assms(2) by (simp add: add_event_def Let_def wei_to_bera_uint256[OF assms(1)] known_pool_def)

lemma add_event_known_pool:
  assumes "uint256 (amount_in ev)" and "known_pool (pool ev)"
  shows "\<exists>ad'. add_event ad ev = Inr ad'"
  using assms by (simp add: add_event_Inr_iff wei_to_bera_uint256)

lemma loop_known_pools:
  assumes "\<forall>e \<in> set evs. uint256 (amount_in e) \<and> known_pool (pool e)"
  shows "\<exists>ad'. calculate_volumes_loop ad evs = Inr ad'"
  using assms
proof (induction evs arbitrary: ad)
  case Nil
  show ?case by simp
next
  case (Cons ev evs)
  then obtain ad1 where "add_event ad ev = Inr ad1"
    using add_event_known_pool[of ev ad] by auto
  then show ?case using Cons by simp
qed

lemma loop_unknown_pool:
  assumes "\<forall>e \<in> set evs. uint256 (amount_in e)" and "\<exists>e \<in> set evs. \<not> known_pool (pool e)"
  shows "\<exists>p. \<not> known_pool p \<and> calculate_volumes_loop ad evs = Inl (KeyError p)"
  using assms
proof (induction evs arbitrary: ad)
  case Nil
  then show ?case by simp
next
  case (Cons ev evs)
  show ?case
  proof (cases "known_pool (pool ev)")
    case True
    then obtain ad1 where a: "add_event ad ev = Inr ad1"
      using add_event_known_pool[of ev ad] Cons.prems(1) by auto
    have "\<exists>e \<in> set evs. \<not> known_pool (pool e)" using Cons.prems(2) True by auto
    then show ?thesis using Cons.IH[of ad1] Cons.prems(1) a by simp
  next
    case False
    then show ?thesis using add_event_unknown_pool[of ev ad] Cons.prems(1) by auto
  qed
qed

lemma dict_get_update:
  "dict_get (AList.update k v d) k' dflt = (if k' = k then v else dict_get d k' dflt)"
  by (simp add: dict_get_def update_conv')

lemma loop_entry:
  assumes "calculate_volumes_loop ad evs = Inr ad'"
  shows "dict_get ad' a new_entry = foldl apply_event (dict_get ad a new_entry) (trades_of a evs)"
  using assms
proof (induction evs arbitrary: ad)
  case Nil
  then show ?case by (simp add: trades_of_def)
next
  case (Cons ev evs)
  then obtain ad1 where a: "add_event ad ev = Inr ad1" and l: "calculate_volumes_loop ad1 evs = Inr ad'"
    by (auto split: sum.splits)
  have "dict_get ad1 a new_entry =
          (if lower (address ev) = a then apply_event (dict_get ad a new_entry) ev
           else dict_get ad a new_entry)"
    using a by (auto simp: add_event_Inr_iff dict_get_update)
  then show ?case using Cons.IH[OF l] by (simp add: trades_of_def)
qed

lemma loop_keys:
  assumes "calculate_volumes_loop ad evs = Inr ad'"
  shows "fst ` set ad' = fst ` set ad \<union> (\<lambda>e. lower (address e)) ` set evs"
  using assms
proof (induction evs arbitrary: ad)
  case Nil
  then show ?case by simp
next
  case (Cons ev evs)
  then obtain ad1 where a: "add_event ad ev = Inr ad1" and l: "calculate_volumes_loop ad1 evs = Inr ad'"
    by (auto split: sum.splits)
  have "fst ` set ad1 = insert (lower (address ev)) (fst ` set ad)"
    using a by (simp add: add_event_Inr_iff dom_update)
  then show ?case using Cons.IH[OF l] by auto
qed

lemma loop_distinct:
  assumes "calculate_volumes_loop ad evs = Inr ad'" and "distinct (map fst ad)"
  shows "distinct (map fst ad')"
  using assms
proof (induction evs arbitrary: ad)
  case Nil
  then show ?case by simp
next
  case (Cons ev evs)
  then obtain ad1 where a: "add_event ad ev = Inr ad1" and l: "calculate_volumes_loop ad1 evs = Inr ad'"
    by (auto split: sum.splits)
  have "distinct (map fst ad1)" using a Cons.prems(2) by (simp add: add_event_Inr_iff distinct_update)
  then show ?case using Cons.IH[OF l] by simp
qed

lemma tx_count_foldl: "tx_count (foldl apply_event r es) = tx_count r + int (length es)"
  by (induction es arbitrary: r) (simp_all add: apply_event_def update_entry_def Let_def)

lemma total_volume_foldl:
  "total_volume (foldl apply_event r es) = foldl fadd (total_volume r) (map event_volume es)"
  by (induction es arbitrary: r) (simp_all add: apply_event_def update_entry_def Let_def)

lemma key_in_dict:
  assumes "distinct (map fst d)" and "k \<in> fst ` set d"
  shows "length (filter (\<lambda>kv. fst kv = k) d) = 1"
  using assms
proof (induction d)
  case Nil
  then show ?case by simp
next
  case (Cons x d)
  show ?case
  proof (cases "fst x = k")
    case True
    then have "k \<notin> fst ` set d" using Cons.prems(1) by auto
    then have "filter (\<lambda>kv. fst kv = k) d = []" by (auto simp: filter_empty_conv)
    then show ?thesis using True by simp
  next
    case False
    then show ?thesis using Cons by auto
  qed
qed


lemma calculate_volumes_entry:
  assumes "calculate_volumes evs = Inr ad" and "e \<in> set evs"
  shows "length (filter (\<lambda>kv. fst kv = lower (address e)) ad) = 1"
    and "\<exists>r. map_of ad (lower (address e)) = Some r \<and>
           r = foldl apply_event new_entry (trades_of (lower (address e)) evs)"
proof -
  let ?a = "lower (address e)"
  have l: "calculate_volumes_loop [] evs = Inr ad" using assms(1) by (simp add: calculate_volumes_def)
  have d: "distinct (map fst ad)" using loop_distinct[OF l] by simp
  have k: "?a \<in> fst ` set ad" using loop_keys[OF l] assms(2) by auto
  show "length (filter (\<lambda>kv. fst kv = ?a) ad) = 1" by (rule key_in_dict[OF d k])
  obtain r where r: "map_of ad ?a = Some r" using k by (metis domD dom_map_of_conv_image_fst)
  have "dict_get ad ?a new_entry = foldl apply_event new_entry (trades_of ?a evs)"
    using loop_entry[OF l, of ?a] by (simp add: dict_get_def)
  then show "\<exists>r. map_of ad ?a = Some r \<and> r = foldl apply_event new_entry (trades_of ?a evs)"
    using r by (simp add: dict_get_def)
qed

text \<open>
  C8. With 256-bit amounts, \<open>calculate_volumes\<close> raises KeyError (the script's form of the
  unknown-pool failure) exactly when some event's pool is not a key of \<open>collection_map\<close>;
  the key reported is such a pool, and the error leaves \<open>main\<close> uncaught, ending the run.
  When every pool is listed the aggregation returns a table.
\<close>

theorem unknown_pool_is_fatal:
  assumes "\<forall>e \<in> set evs. uint256 (amount_in e)"
  shows "((\<exists>p. calculate_volumes evs = Inl (KeyError p)) \<longleftrightarrow> (\<exists>e \<in> set evs. \<not> known_pool (pool e)))
       \<and> (\<forall>p. calculate_volumes evs = Inl (KeyError p) \<longrightarrow>
              \<not> known_pool p \<and> main_from_events evs = Inl (KeyError p))
       \<and> ((\<forall>e \<in> set evs. known_pool (pool e)) \<longrightarrow> (\<exists>ad. calculate_volumes evs = Inr ad))"
proof (cases "\<exists>e \<in> set evs. \<not> known_pool (pool e)")
  case True
  then obtain p where p: "\<not> known_pool p" "calculate_volumes evs = Inl (KeyError p)"
    using loop_unknown_pool[OF assms, of "[]"] by (auto simp: calculate_volumes_def)
  then have "main_from_events evs = Inl (KeyError p)" by (simp add: main_from_events_def)
  then show ?thesis using True p by auto
next
  case False
  then have "\<forall>e \<in> set evs. uint256 (amount_in e) \<and> known_pool (pool e)" using assms by auto
  then obtain ad where "calculate_volumes evs = Inr ad"
    using loop_known_pools[of evs "[]"] by (auto simp: calculate_volumes_def)
  then show ?thesis using False by auto
qed

theorem unknown_pool_is_fatal_witness:
  "(\<exists>e \<in> set unlisted_pool. \<not> known_pool (pool e))
   \<and> (\<exists>p. calculate_volumes unlisted_pool = Inl (KeyError p))
   \<and> main_from_events unlisted_pool =
       Inl (KeyError ''0xe9171252d2eec5ba1eefb6e2fef62bc32c061afa'')
   \<and> (\<exists>ad. calculate_volumes two_casings = Inr ad)"
proof -
  have a: "\<forall>e \<in> set unlisted_pool. uint256 (amount_in e)"
    by (simp add: unlisted_pool_def trade_def uint256_def)
  have b: "\<forall>e \<in> set two_casings. uint256 (amount_in e)"
    by (simp add: two_casings_def trade_def uint256_def)
  have c: "\<exists>e \<in> set unlisted_pool. \<not> known_pool (pool e)"
    by (simp add: unlisted_pool_def trade_def known_pool_def collection_map_def)
  have d: "\<forall>e \<in> set two_casings. known_pool (pool e)"
    by (simp add: two_casings_def trade_def known_pool_def collection_map_def
          YEETARD_POOL_def BULLA_POOL_def)
  have e: "calculate_volumes unlisted_pool =
             Inl (KeyError ''0xe9171252d2eec5ba1eefb6e2fef62bc32c061afa'')"
    by code_simp
  show ?thesis
    using unknown_pool_is_fatal[OF a] unknown_pool_is_fatal[OF b] a b c d e by blast
qed

subsection \<open>Lower-casing and letter case\<close>

text \<open>
  \<open>lower\<close> maps two strings to the same string exactly when they differ only in letter
  casing; it changes nothing in a string it has produced.
\<close>

lemma of_char_lower_char:
  "(of_char (lower_char c) :: nat) = (if is_upper c then of_char c + 32 else of_char c)"
proof (cases "is_upper c")
  case True
  define n where "n = (of_char c :: nat)"
  have n: "65 \<le> n" "n \<le> 90" using True by (simp_all add: is_upper_def n_def)
  have "lower_char c = char_of (n + 32)"
    unfolding lower_char_def Let_def n_def[symmetric] using n by (simp only: if_True simp_thms)
  moreover have "(of_char (char_of (n + 32) :: char) :: nat) = (n + 32) mod 256"
    by (rule of_char_of)
  moreover have "(n + 32) mod 256 = n + 32" using n by simp
  ultimately show ?thesis using True by (simp only: n_def if_True)
next
  case False
  then have "lower_char c = c"
    unfolding lower_char_def Let_def is_upper_def by (simp only: if_False)
  then show ?thesis using False by (simp only: if_False)
qed

lemma same_letter_nat:
  fixes n m :: nat
  shows "((if 65 \<le> n \<and> n \<le> 90 then n + 32 else n) = (if 65 \<le> m \<and> m \<le> 90 then m + 32 else m))
         \<longleftrightarrow> (n = m \<or> (65 \<le> n \<and> n \<le> 90 \<and> m = n + 32) \<or> (65 \<le> m \<and> m \<le> 90 \<and> n = m + 32))"
  by (cases "65 \<le> n \<and> n \<le> 90"; cases "65 \<le> m \<and> m \<le> 90") (simp_all, linarith+)

lemma lower_char_eq_iff: "lower_char c = lower_char d \<longleftrightarrow> same_letter c d"
proof -
  have e: "c = d \<longleftrightarrow> (of_char c :: nat) = of_char d" by simp
  have "lower_char c = lower_char d \<longleftrightarrow> (of_char (lower_char c) :: nat) = of_char (lower_char d)"
    by simp
  also have "\<dots> \<longleftrightarrow> same_letter c d"
    unfolding of_char_lower_char same_letter_def is_upper_def e
    using same_letter_nat[of "of_char c" "of_char d"] by (simp only: conj_assoc)
  finally show ?thesis .
qed

lemma lower_eq_iff: "lower a = lower b \<longleftrightarrow> differ_only_in_case a b"
  unfolding lower_def differ_only_in_case_def
proof (induction a arbitrary: b)
  case Nil
  then show ?case by auto
next
  case (Cons c a)
  then show ?case by (cases b) (auto simp: lower_char_eq_iff)
qed

lemma lower_char_idem: "lower_char (lower_char c) = lower_char c"
proof -
  have "\<not> is_upper (lower_char c)"
    unfolding is_upper_def of_char_lower_char by (cases "is_upper c") (simp_all add: is_upper_def)
  then have "(of_char (lower_char (lower_char c)) :: nat) = of_char (lower_char c)"
    unfolding of_char_lower_char[of "lower_char c"] by (simp only: if_False)
  then show ?thesis by simp
qed

lemma lower_idem: "lower (lower a) = lower a"
  by (simp add: lower_def lower_char_idem)

lemma differ_only_in_case_lower: "differ_only_in_case (lower a) a"
  by (simp add: lower_eq_iff[symmetric] lower_idem)

text \<open>
  C9. When \<open>calculate_volumes\<close> returns, every trader address of the input has exactly one
  entry in the table among the keys that differ from it only in letter casing (the key is
  the address lower-cased), so addresses that differ only in letter casing share one
  entry; the entry's transaction count is the number of input events whose address
  differs from that address only in letter casing.
\<close>

theorem one_entry_per_address:
  assumes "calculate_volumes evs = Inr ad" and "e \<in> set evs"
  shows "\<exists>k r. (k, r) \<in> set ad \<and> differ_only_in_case k (address e)
           \<and> (\<forall>kv \<in> set ad. differ_only_in_case (fst kv) (address e) \<longrightarrow> kv = (k, r))
           \<and> length (filter (\<lambda>kv. differ_only_in_case (fst kv) (address e)) ad) = 1
           \<and> tx_count r =
                int (length (filter (\<lambda>e'. differ_only_in_case (address e') (address e)) evs))"
proof -
  define k where "k = lower (address e)"
  obtain r where r: "map_of ad k = Some r"
      "r = foldl apply_event new_entry (trades_of k evs)"
    using calculate_volumes_entry(2)[OF assms] unfolding k_def by blast
  have l: "calculate_volumes_loop [] evs = Inr ad" using assms(1) by (simp add: calculate_volumes_def)
  have d: "distinct (map fst ad)" using loop_distinct[OF l] by simp
  have keys: "fst ` set ad = (\<lambda>e. lower (address e)) ` set evs" using loop_keys[OF l] by simp
  have m: "(k, r) \<in> set ad" using r(1) by (rule map_of_SomeD)
  have key_iff: "differ_only_in_case (fst kv) (address e) \<longleftrightarrow> fst kv = k" if kv: "kv \<in> set ad" for kv
  proof -
    have "fst kv \<in> fst ` set ad" using kv by (rule imageI)
    then have "fst kv \<in> (\<lambda>e. lower (address e)) ` set evs" unfolding keys .
    then obtain e' :: event where "fst kv = lower (address e')" by blast
    then have "lower (fst kv) = fst kv" by (simp only: lower_idem)
    then show ?thesis
      unfolding k_def lower_eq_iff[symmetric] by (simp only:)
  qed
  have u: "\<forall>kv \<in> set ad. differ_only_in_case (fst kv) (address e) \<longrightarrow> kv = (k, r)"
  proof (intro ballI impI)
    fix kv assume kv: "kv \<in> set ad" and c: "differ_only_in_case (fst kv) (address e)"
    have f: "fst kv = k" using key_iff[OF kv] c by (simp only:)
    have "(k, snd kv) \<in> set ad" using kv f[symmetric] by (simp only: prod.collapse)
    then have "map_of ad k = Some (snd kv)" by (rule map_of_is_SomeI[OF d])
    then have "snd kv = r" using r(1) by (simp only: option.inject)
    then show "kv = (k, r)" using f by (simp only: prod_eq_iff fst_conv snd_conv simp_thms)
  qed
  have "filter (\<lambda>kv. differ_only_in_case (fst kv) (address e)) ad = filter (\<lambda>kv. fst kv = k) ad"
    by (rule filter_cong[OF refl]) (rule key_iff)
  then have one: "length (filter (\<lambda>kv. differ_only_in_case (fst kv) (address e)) ad) = 1"
    using calculate_volumes_entry(1)[OF assms] unfolding k_def by (simp only:)
  have "tx_count r = int (length (trades_of k evs))"
    unfolding r(2) by (simp add: tx_count_foldl new_entry_def)
  also have "trades_of k evs = filter (\<lambda>e'. differ_only_in_case (address e') (address e)) evs"
    unfolding trades_of_def k_def by (simp only: lower_eq_iff)
  finally have t: "tx_count r =
      int (length (filter (\<lambda>e'. differ_only_in_case (address e') (address e)) evs))" .
  have c: "differ_only_in_case k (address e)" unfolding k_def by (rule differ_only_in_case_lower)
  show ?thesis
    by (rule exI[of _ k], rule exI[of _ r]) (intro conjI m c u one t)
qed

theorem one_entry_per_address_witness:
  "calculate_volumes two_casings =
     Inr [(''0xab'', \<lparr>total_volume = 2, collections = [(''YEETARD'', 1), (''BULLA'', 1)],
                       tx_count = 2\<rparr>)]
   \<and> differ_only_in_case ''0xAb'' ''0xaB'' \<and> ''0xAb'' \<noteq> ''0xaB''
   \<and> \<not> differ_only_in_case ''0xAb'' ''0xAc''
   \<and> length (filter (\<lambda>e'. differ_only_in_case (address e') ''0xAb'') two_casings) = 2
   \<and> (\<exists>k r. (k, r) \<in> set [(''0xab'', \<lparr>total_volume = 2,
                                 collections = [(''YEETARD'', 1), (''BULLA'', 1)], tx_count = 2\<rparr>)]
            \<and> differ_only_in_case k ''0xAb''
            \<and> length (filter (\<lambda>kv. differ_only_in_case (fst kv) ''0xAb'')
                        [(''0xab'', \<lparr>total_volume = 2,
                            collections = [(''YEETARD'', 1 :: rat), (''BULLA'', 1)],
                            tx_count = 2 :: int\<rparr>)]) = 1
            \<and> tx_count r = 2)"
proof -
  let ?e = "trade YEETARD_POOL ''0xAb'' (10 ^ 18) 0"
  have a: "calculate_volumes two_casings =
             Inr [(''0xab'', \<lparr>total_volume = 2, collections = [(''YEETARD'', 1), (''BULLA'', 1)],
                               tx_count = 2\<rparr>)]"
    by code_simp
  have b: "?e \<in> set two_casings"
    by (simp add: two_casings_def)
  have c: "differ_only_in_case ''0xAb'' ''0xaB''" "differ_only_in_case ''0xaB'' ''0xAb''"
      "differ_only_in_case ''0xAb'' ''0xAb''" "\<not> differ_only_in_case ''0xAb'' ''0xAc''"
    by code_simp+
  have l: "address ?e = ''0xAb''" by (simp add: trade_def)
  have n: "length (filter (\<lambda>e'. differ_only_in_case (address e') ''0xAb'') two_casings) = 2"
    by (simp add: two_casings_def trade_def c)
  from one_entry_per_address[OF a b]
  obtain k r where kr: "(k, r) \<in> set [(''0xab'', \<lparr>total_volume = 2,
                                 collections = [(''YEETARD'', 1), (''BULLA'', 1)], tx_count = 2\<rparr>)]"
      "differ_only_in_case k ''0xAb''"
      "length (filter (\<lambda>kv. differ_only_in_case (fst kv) ''0xAb'')
                        [(''0xab'', \<lparr>total_volume = 2,
                            collections = [(''YEETARD'', 1 :: rat), (''BULLA'', 1)],
                            tx_count = 2 :: int\<rparr>)]) = 1"
      "tx_count r = 2"
    unfolding l n by auto
  show ?thesis using a c(1,4) n kr by blast
qed

section \<open>Ranking\<close>

lemma sorted_reverse_descending:
  "sorted_wrt (\<lambda>x y. key y \<le> key x) (sorted_reverse key xs)"
proof -
  have "sorted (map key (sort_key key (rev xs)))" by (rule sorted_sort_key)
  then have "sorted_wrt (\<lambda>x y. key x \<le> key y) (sort_key key (rev xs))"
    by (simp add: sorted_map)
  then show ?thesis unfolding sorted_reverse_def by (simp add: sorted_wrt_rev)
qed

lemma sorted_reverse_mset: "mset (sorted_reverse key xs) = mset xs"
  by (simp add: sorted_reverse_def)

lemma sorted_reverse_stable:
  "filter (\<lambda>x. key x = k) (sorted_reverse key xs) = filter (\<lambda>x. key x = k) xs"
  by (simp add: sorted_reverse_def rev_filter[symmetric] sort_key_stable)

text \<open>
  C4, as the code has it. The ranking is sorted by allocation, largest first, and holds
  the same entries as its input; entries with equal allocations keep the order in which
  the input enumerates them (the sort is stable and its key is the allocation alone), so
  the output is a function of the input list, its order included.
\<close>

theorem rank_sorted_stable:
  "sorted_wrt (\<lambda>x y. allocation (snd y) \<le> allocation (snd x)) (rank results)
   \<and> mset (rank results) = mset results
   \<and> (\<forall>k. filter (\<lambda>x. allocation (snd x) = k) (rank results) =
            filter (\<lambda>x. allocation (snd x) = k) results)"
  unfolding rank_def
  by (simp add: sorted_reverse_descending sorted_reverse_mset sorted_reverse_stable)

text \<open>
  C4 as stated fails. Two accounts trade the same amount, the larger address first: both
  rankings of \<open>main\<close> list \<open>0xb\<close> before \<open>0xa\<close>, which is not address-ascending, and
  enumerating the same mapping in the other order gives a different ranking.
\<close>

lemma rank_tied_results: "rank tied_results = tied_results"
  by (simp add: rank_def sorted_reverse_def tied_results_def)

lemma b_after_a: "\<not> ''0xb'' \<le> ''0xa''"
  by code_simp

theorem rank_tie_counterexample:
  "main_from_events tied_trades =
     Inr ([(''0xb'', \<lparr>allocation = 6230565890730667 / 1099511627776, address_data = one_yeetard\<rparr>),
           (''0xa'', \<lparr>allocation = 6230565890730667 / 1099511627776, address_data = one_yeetard\<rparr>)],
          tied_results)
   \<and> rank tied_results = tied_results
   \<and> \<not> sorted_wrt spec_before (rank tied_results)
   \<and> map_of (rev tied_results) = map_of tied_results
   \<and> rank (rev tied_results) \<noteq> rank tied_results"
proof -
  have r: "rnd 1 = 1" "rnd 2 = 2" "rnd (34000 / 3) = 6230565890730667 / 549755813888"
    "rnd (1 / 2) = 1 / 2" "rnd 17000 = 17000" "rnd 34000 = 34000"
    "rnd (6230565890730667 / 1099511627776) = 6230565890730667 / 1099511627776"
    "rnd 1000000000000000000 = 1000000000000000000"
    by code_simp+
  have w: "wei_to_bera 1000000000000000000 = Inr 1"
    by (simp add: wei_to_bera_def int_to_float_def fdiv_def r)
  have cv: "calculate_volumes tied_trades = Inr [(''0xb'', one_yeetard), (''0xa'', one_yeetard)]"
    by (simp add: calculate_volumes_def tied_trades_def trade_def add_event_def w lower_def
          lower_char_def YEETARD_POOL_def collection_map_def dict_get_def new_entry_def
          update_entry_def one_yeetard_def fadd_def r Let_def)
  have dc: "distribute_by_collection [(''0xb'', one_yeetard), (''0xa'', one_yeetard)] 34000 =
      Inr [(''0xb'', 6230565890730667 / 1099511627776), (''0xa'', 6230565890730667 / 1099511627776)]"
    by (simp add: distribute_by_collection_def collection_volumes_init_def one_yeetard_def
          dict_get_def pysum_def fadd_def fmul_def fdiv_def Let_def r)
  have dv: "distribute_by_total_volume [(''0xb'', one_yeetard), (''0xa'', one_yeetard)] 34000 =
      Inr [(''0xb'', 17000), (''0xa'', 17000)]"
    by (simp add: distribute_by_total_volume_def one_yeetard_def pysum_def fadd_def fmul_def
          fdiv_def r)
  have m: "main_from_events tied_trades =
     Inr ([(''0xb'', \<lparr>allocation = 6230565890730667 / 1099511627776, address_data = one_yeetard\<rparr>),
           (''0xa'', \<lparr>allocation = 6230565890730667 / 1099511627776, address_data = one_yeetard\<rparr>)],
          tied_results)"
    by (simp add: main_from_events_def cv dc dv TOTAL_BERA_TOKENS_def build_results_def
          dict_get_def rank_def sorted_reverse_def tied_results_def)
  have s: "\<not> sorted_wrt spec_before (rank tied_results)"
    unfolding rank_tied_results by (simp add: tied_results_def spec_before_def b_after_a)
  have e: "map_of (rev tied_results) = map_of tied_results"
    by (rule ext) (simp add: tied_results_def)
  have r: "rank (rev tied_results) \<noteq> rank tied_results"
    by (simp add: rank_def sorted_reverse_def tied_results_def)
  show ?thesis using m rank_tied_results s e r by blast
qed

section \<open>Scanning: sub-ranges, retries and decoding\<close>

lemma processed_ranges_append:
  "processed_ranges (out @ out') = processed_ranges out @ processed_ranges out'"
  by (induction out rule: processed_ranges.induct) simp_all

lemma scan_step_done:
  "\<not> cur \<le> to_block \<Longrightarrow>
   scan_loop (Suc fuel) w3 p to_block cur clk evs out = Some (evs, out, clk)"
  by simp

lemma scan_step_rpc_fail:
  "cur \<le> to_block \<Longrightarrow> get_logs w3 clk cur (min (cur + chunk_size) to_block) p = None \<Longrightarrow>
   scan_loop (Suc fuel) w3 p to_block cur clk evs out =
     scan_loop fuel w3 p to_block cur (Suc clk) evs
       (out @ [ErrorProcessing cur (min (cur + chunk_size) to_block)])"
  by (simp add: Let_def)

lemma scan_step_attempt_fail:
  "cur \<le> to_block \<Longrightarrow> get_logs w3 clk cur (min (cur + chunk_size) to_block) p = Some logs \<Longrightarrow>
   process_logs w3 p logs (Suc clk) evs = (False, c1, e1) \<Longrightarrow>
   scan_loop (Suc fuel) w3 p to_block cur clk evs out =
     scan_loop fuel w3 p to_block cur c1 e1
       (out @ [ErrorProcessing cur (min (cur + chunk_size) to_block)])"
  by (simp add: Let_def)

lemma scan_step_ok:
  "cur \<le> to_block \<Longrightarrow> get_logs w3 clk cur (min (cur + chunk_size) to_block) p = Some logs \<Longrightarrow>
   process_logs w3 p logs (Suc clk) evs = (True, c1, e1) \<Longrightarrow>
   scan_loop (Suc fuel) w3 p to_block cur clk evs out =
     scan_loop fuel w3 p to_block (min (cur + chunk_size) to_block + 1) c1 e1
       (out @ [Processed cur (min (cur + chunk_size) to_block)])"
  by (simp add: Let_def)

lemma scan_loop_partition:
  assumes "scan_loop fuel w3 p to_block cur clk evs out = Some (evs', out', clk')"
    and "cur \<le> to_block + 1"
  shows "\<exists>rs. processed_ranges out' = processed_ranges out @ rs \<and> partitions cur rs to_block
              \<and> (\<forall>r \<in> set rs. snd r - fst r \<le> chunk_size)"
  using assms
proof (induction fuel arbitrary: cur clk evs out)
  case 0
  then show ?case by simp
next
  case (Suc fuel)
  show ?case
  proof (cases "cur \<le> to_block")
    case False
    then have "cur = to_block + 1" using Suc.prems(2) by simp
    moreover have "out' = out" using Suc.prems(1) scan_step_done[OF False] by simp
    ultimately show ?thesis by simp
  next
    case True
    define eb where "eb = min (cur + chunk_size) to_block"
    have "0 \<le> chunk_size" by (simp add: chunk_size_def)
    then have eb: "cur \<le> eb" "eb \<le> to_block" "eb - cur \<le> chunk_size"
      using True unfolding eb_def by linarith+
    show ?thesis
    proof (cases "get_logs w3 clk cur eb p")
      case None
      have "scan_loop fuel w3 p to_block cur (Suc clk) evs (out @ [ErrorProcessing cur eb])
                   = Some (evs', out', clk')"
        using Suc.prems(1) scan_step_rpc_fail[OF True None[unfolded eb_def]]
        unfolding eb_def by simp
      from Suc.IH[OF this Suc.prems(2)] show ?thesis by (simp add: processed_ranges_append)
    next
      case (Some logs)
      obtain ok c1 e1 where pl: "process_logs w3 p logs (Suc clk) evs = (ok, c1, e1)"
        using prod_cases3 by blast
      show ?thesis
      proof (cases ok)
        case False
        have "scan_loop fuel w3 p to_block cur c1 e1 (out @ [ErrorProcessing cur eb])
                     = Some (evs', out', clk')"
          using Suc.prems(1) scan_step_attempt_fail[OF True Some[unfolded eb_def]] pl False
          unfolding eb_def by simp
        from Suc.IH[OF this Suc.prems(2)] show ?thesis by (simp add: processed_ranges_append)
      next
        case ok: True
        have "scan_loop fuel w3 p to_block (eb + 1) c1 e1 (out @ [Processed cur eb])
                     = Some (evs', out', clk')"
          using Suc.prems(1) scan_step_ok[OF True Some[unfolded eb_def]] pl ok
          unfolding eb_def by simp
        from Suc.IH[OF this] eb(2)
        obtain rs where rs: "processed_ranges out' = processed_ranges (out @ [Processed cur eb]) @ rs"
            "partitions (eb + 1) rs to_block" "\<forall>r \<in> set rs. snd r - fst r \<le> chunk_size"
          by auto
        have "processed_ranges out' = processed_ranges out @ ((cur, eb) # rs)"
          using rs(1) by (simp add: processed_ranges_append)
        moreover have "partitions cur ((cur, eb) # rs) to_block" using rs(2) eb by simp
        moreover have "\<forall>r \<in> set ((cur, eb) # rs). snd r - fst r \<le> chunk_size"
          using rs(3) eb(3) by simp
        ultimately show ?thesis by blast
      qed
    qed
  qed
qed

text \<open>
  What holds of the ranges: a scan that returns has processed ranges that start at
  \<open>from_block\<close>, follow one another without gap or overlap and end at \<open>to_block\<close>, and
  the two ends of a range are at most \<open>chunk_size\<close> apart.
\<close>

lemma get_pool_events_partition:
  assumes "get_pool_events fuel w3 clk p from_block (Some to_block) = Some (Inr (evs, out, clk'))"
    and "from_block \<le> to_block"
  shows "partitions from_block (processed_ranges out) to_block
       \<and> (\<forall>r \<in> set (processed_ranges out). snd r - fst r \<le> chunk_size)"
proof -
  have "scan_loop fuel w3 p to_block from_block clk [] [] = Some (evs, out, clk')"
    using assms(1) by (auto simp: get_pool_events_def)
  from scan_loop_partition[OF this] assms(2) show ?thesis by auto
qed

text \<open>
  C6. On blocks 0 to 5000 the scan makes a single request, for the range 0 to 5000, both
  ends included: 5001 blocks, one more than the chunk size of 5000. The end of a range is
  \<open>current_block + chunk_size\<close>, not \<open>current_block + chunk_size - 1\<close>.
\<close>

theorem chunk_of_5001_blocks:
  "get_pool_events 2 quiet_node 0 YEETARD_POOL 0 (Some 5000) =
     Some (Inr ([], [Processed 0 5000], 1))
   \<and> blocks_in (0, 5000) = 5001
   \<and> \<not> blocks_in (0, 5000) \<le> chunk_size"
  by (simp add: get_pool_events_def quiet_node_def chunk_size_def numeral_2_eq_2 blocks_in_def)

text \<open>
  C3. The node returns two logs for block 0; the lookup of the second log's transaction
  fails once. The first attempt has already appended the first log's event when it fails,
  the retry appends both, and the scan returns the first event twice: two records with
  the same transaction hash and log index.
\<close>

theorem retry_duplicates_events:
  "get_pool_events 3 flaky_node 0 YEETARD_POOL 0 (Some 0) =
     Some (Inr ([event_a, event_a, event_b], [ErrorProcessing 0 0, Processed 0 0], 6))
   \<and> \<not> distinct (map (\<lambda>e. (tx_hash e, log_index e)) [event_a, event_a, event_b])"
proof -
  have "get_pool_events 3 flaky_node 0 YEETARD_POOL 0 (Some 0) =
     Some (Inr ([event_a, event_a, event_b], [ErrorProcessing 0 0, Processed 0 0], 6))"
    by code_simp
  then show ?thesis by simp
qed

lemma process_logs_append:
  "process_logs w3 p (xs @ ys) clk evs =
     (case process_logs w3 p xs clk evs of
        (True, c, e) \<Rightarrow> process_logs w3 p ys c e
      | (False, c, e) \<Rightarrow> (False, c, e))"
proof (induction xs arbitrary: clk evs)
  case Nil
  then show ?case by simp
next
  case (Cons x xs)
  then show ?case by (simp split: sum.splits option.splits)
qed

lemma digits16_hex:
  assumes "\<forall>c \<in> set ds. hex_digit c \<noteq> None" and "ds \<noteq> [] \<or> prev"
  shows "digits16 acc prev ds = Some (foldl (\<lambda>a c. 16 * a + the (hex_digit c)) acc ds)"
  using assms
proof (induction ds arbitrary: acc prev)
  case Nil
  then show ?case by simp
next
  case (Cons c ds)
  have u: "c \<noteq> CHR ''_''" using Cons.prems(1) by (auto simp: hex_digit_def)
  obtain d where d: "hex_digit c = Some d" using Cons.prems(1) by auto
  have "digits16 (16 * acc + d) True ds =
          Some (foldl (\<lambda>a c. 16 * a + the (hex_digit c)) (16 * acc + d) ds)"
    using Cons.IH[of True "16 * acc + d"] Cons.prems(1) by simp
  then show ?case using u d by simp
qed

lemma hex_digit_not_space: "hex_digit c \<noteq> None \<Longrightarrow> \<not> py_isspace c"
  by (auto simp: hex_digit_def py_isspace_def Let_def split: if_splits)

lemma hex_digit_not_underscore: "hex_digit c \<noteq> None \<Longrightarrow> c \<noteq> CHR ''_''"
  by (auto simp: hex_digit_def)

lemma py_int16_hex:
  assumes "ds \<noteq> []" and "\<forall>c \<in> set ds. hex_digit c \<noteq> None"
  shows "py_int16 (''0x'' @ ds) = Inr (hex_value ds)"
proof -
  obtain c cs where ds: "ds = c # cs" using assms(1) by (cases ds) auto
  have l: "\<not> py_isspace (last ds)" using assms by (simp add: hex_digit_not_space)
  have "dropWhile py_isspace (rev (''0x'' @ ds)) = rev (''0x'' @ ds)"
    using l assms(1) by (cases "rev ds") (auto simp: last_rev hd_rev)
  moreover have "\<not> py_isspace CHR ''0''" by (simp add: py_isspace_def)
  ultimately have s: "py_strip (''0x'' @ ds) = ''0x'' @ ds" by (simp add: py_strip_def)
  have p: "strip_prefix16 (''0x'' @ ds) = ds"
    using assms(2) by (simp add: strip_prefix16_def ds hex_digit_not_underscore)
  have "digits16 0 False ds = Some (hex_value ds)"
    unfolding hex_value_def by (rule digits16_hex) (use assms in auto)
  then show ?thesis by (simp add: py_int16_def s[simplified] Let_def p[simplified])
qed

lemma take_66: "length ds \<le> 64 \<Longrightarrow> take 66 (''0x'' @ ds) = ''0x'' @ ds"
  by simp

text \<open>
  C7, as the code has it. Within an attempt on a sub-range, after the logs before it were
  decoded: a log whose first 66 data characters are not a hexadecimal literal (ValueError)
  or whose transaction lookup raises ends the attempt, the events of the logs before it
  stay appended, and the loop goes on with the same \<open>current_block\<close>, so the same
  sub-range is requested again. A log whose data is \<open>0x\<close> and 1 to 64 hexadecimal digits
  (a payload of 32 bytes or fewer) is not rejected: its event carries the integer the
  digits write.
\<close>

theorem decode_failures_retry:
  assumes "cur \<le> to_block"
    and "get_logs w3 clk cur (min (cur + chunk_size) to_block) p = Some (pre @ lg # post)"
    and "process_logs w3 p pre (Suc clk) evs = (True, c1, e1)"
  shows "((py_int16 (take 66 (data lg)) = Inl ValueError
             \<or> get_transaction w3 c1 (transactionHash lg) = None) \<longrightarrow>
           (\<exists>c2. scan_loop (Suc fuel) w3 p to_block cur clk evs out =
                   scan_loop fuel w3 p to_block cur c2 e1
                     (out @ [ErrorProcessing cur (min (cur + chunk_size) to_block)])))
       \<and> ((data lg = ''0x'' @ ds \<and> ds \<noteq> [] \<and> length ds \<le> 64
             \<and> (\<forall>c \<in> set ds. hex_digit c \<noteq> None)
             \<and> get_transaction w3 c1 (transactionHash lg) = Some sender) \<longrightarrow>
           process_logs w3 p (pre @ [lg]) (Suc clk) evs =
             (True, Suc c1,
              e1 @ [\<lparr>pool = p, tx_hash = transactionHash lg, block_number = blockNumber lg,
                      address = sender, amount_in = hex_value ds, log_index = logIndex lg\<rparr>]))"
proof (intro conjI impI)
  assume f: "py_int16 (take 66 (data lg)) = Inl ValueError
             \<or> get_transaction w3 c1 (transactionHash lg) = None"
  have "\<exists>c2. process_logs w3 p (lg # post) c1 e1 = (False, c2, e1)"
    using f by (auto split: sum.splits option.splits)
  then obtain c2 where "process_logs w3 p (pre @ lg # post) (Suc clk) evs = (False, c2, e1)"
    using assms(3) by (auto simp: process_logs_append)
  from scan_step_attempt_fail[OF assms(1) assms(2) this]
  show "\<exists>c2. scan_loop (Suc fuel) w3 p to_block cur clk evs out =
                   scan_loop fuel w3 p to_block cur c2 e1
                     (out @ [ErrorProcessing cur (min (cur + chunk_size) to_block)])"
    by blast
next
  assume a: "data lg = ''0x'' @ ds \<and> ds \<noteq> [] \<and> length ds \<le> 64
             \<and> (\<forall>c \<in> set ds. hex_digit c \<noteq> None)
             \<and> get_transaction w3 c1 (transactionHash lg) = Some sender"
  then have "py_int16 (take 66 (data lg)) = Inr (hex_value ds)"
    using py_int16_hex[of ds] take_66[of ds] by simp
  then show "process_logs w3 p (pre @ [lg]) (Suc clk) evs =
             (True, Suc c1,
              e1 @ [\<lparr>pool = p, tx_hash = transactionHash lg, block_number = blockNumber lg,
                      address = sender, amount_in = hex_value ds, log_index = logIndex lg\<rparr>])"
    using a assms(3) by (simp add: process_logs_append)
qed

theorem decode_failures_retry_witness:
  "(\<exists>c2. scan_loop (Suc 2) flaky_node YEETARD_POOL 0 0 0 [] [] =
           scan_loop 2 flaky_node YEETARD_POOL 0 0 c2 [event_a] [ErrorProcessing 0 0])
   \<and> process_logs short_node YEETARD_POOL [log_a] 1 [] = (True, 2, [event_a])
   \<and> hex_value ''01'' = 1"
proof -
  have a1: "(0::int) \<le> 0" by simp
  have a2: "get_logs flaky_node 0 0 (min (0 + chunk_size) 0) YEETARD_POOL = Some ([log_a] @ log_b # [])"
    by (simp add: flaky_node_def)
  have a3: "process_logs flaky_node YEETARD_POOL [log_a] (Suc 0) [] = (True, 2, [event_a])"
    by code_simp
  have a4: "get_transaction flaky_node 2 (transactionHash log_b) = None"
    by (simp add: flaky_node_def)
  have b2: "get_logs short_node 0 0 (min (0 + chunk_size) 0) YEETARD_POOL = Some ([] @ log_a # [])"
    by (simp add: short_node_def)
  have b3: "process_logs short_node YEETARD_POOL [] (Suc 0) [] = (True, 1, [])"
    by simp
  have b4: "data log_a = ''0x'' @ ''01'' \<and> ''01'' \<noteq> [] \<and> length ''01'' \<le> 64
             \<and> (\<forall>c \<in> set ''01''. hex_digit c \<noteq> None)
             \<and> get_transaction short_node 1 (transactionHash log_a) = Some ''0xab''"
    by (simp add: log_a_def short_node_def hex_digit_def)
  have h: "hex_value ''01'' = 1" by (simp add: hex_value_def hex_digit_def)
  have e: "\<lparr>pool = YEETARD_POOL, tx_hash = transactionHash log_a, block_number = blockNumber log_a,
             address = ''0xab'', amount_in = 1, log_index = logIndex log_a\<rparr> = event_a"
    by (simp add: log_a_def event_a_def)
  from decode_failures_retry[OF a1 a2 a3, where fuel = 2 and out = "[]"] a4
  have c: "\<exists>c2. scan_loop (Suc 2) flaky_node YEETARD_POOL 0 0 0 [] [] =
           scan_loop 2 flaky_node YEETARD_POOL 0 0 c2 [event_a] [ErrorProcessing 0 0]"
    by (simp add: chunk_size_def)
  from decode_failures_retry[OF a1 b2 b3, where ds = "''01''" and sender = "''0xab''"] b4
  have d: "process_logs short_node YEETARD_POOL [log_a] 1 [] = (True, 2, [event_a])"
    by (simp add: h e)
  show ?thesis using c d h by blast
qed

text \<open>
  C7 as stated fails: a log with the one-byte payload \<open>0x01\<close> raises nothing; the scan
  returns its event, with amount 1.
\<close>

theorem short_payload_counterexample:
  "data log_a = ''0x01''
   \<and> get_pool_events 2 short_node 0 YEETARD_POOL 0 (Some 0) =
       Some (Inr ([event_a], [Processed 0 0], 2))
   \<and> amount_in event_a = 1"
  by (simp add: log_a_def event_a_def) code_simp

section \<open>Tables built by the aggregation\<close>

lemma update_subset: "set (AList.update k v al) \<subseteq> insert (k, v) (set al)"
  by (induction al) auto

lemma update_new_key: "k \<notin> fst ` set al \<Longrightarrow> AList.update k v al = al @ [(k, v)]"
  by (induction al) auto

lemma fadd_nonneg: "0 \<le> x \<Longrightarrow> 0 \<le> y \<Longrightarrow> 0 \<le> fadd x y"
  by (simp add: fadd_def rnd_nonneg)

lemma fmul_nonneg: "0 \<le> x \<Longrightarrow> 0 \<le> y \<Longrightarrow> 0 \<le> fmul x y"
  by (simp add: fmul_def rnd_nonneg)

lemma dict_get_nonneg:
  assumes "\<forall>kv \<in> set d. 0 \<le> snd kv"
  shows "(0::rat) \<le> dict_get d k 0"
proof (cases "map_of d k")
  case None
  then show ?thesis by (simp add: dict_get_def)
next
  case (Some v)
  then have "(k, v) \<in> set d" by (rule map_of_SomeD)
  then show ?thesis using assms Some by (auto simp: dict_get_def)
qed

lemma valid_entry_new: "valid_entry new_entry"
  by (simp add: valid_entry_def new_entry_def)

lemma valid_entry_update:
  assumes "valid_entry r" and "0 \<le> v" and "c \<in> set collection_names"
  shows "valid_entry (update_entry r c v)"
proof -
  have n: "\<forall>kv \<in> set (collections r). 0 \<le> snd kv" using assms(1) by (simp add: valid_entry_def)
  have g: "0 \<le> fadd (dict_get (collections r) c 0) v"
    by (rule fadd_nonneg[OF dict_get_nonneg[OF n] assms(2)])
  have "\<forall>cv \<in> set (AList.update c (fadd (dict_get (collections r) c 0) v) (collections r)).
          0 \<le> snd cv \<and> fst cv \<in> set collection_names"
    using update_subset[of c "fadd (dict_get (collections r) c 0) v" "collections r"] g assms
    by (auto simp: valid_entry_def)
  then show ?thesis
    using assms by (simp add: valid_entry_def update_entry_def Let_def fadd_nonneg distinct_update)
qed

lemma collection_map_names: "map_of collection_map p = Some c \<Longrightarrow> c \<in> set collection_names"
  by (auto simp: collection_map_def collection_names_def split: if_splits)

lemma valid_entry_dict_get: "valid_table ad \<Longrightarrow> valid_entry (dict_get ad a new_entry)"
proof (cases "map_of ad a")
  case None
  then show ?thesis by (simp add: dict_get_def valid_entry_new)
next
  case (Some r)
  assume "valid_table ad"
  moreover have "(a, r) \<in> set ad" using Some by (rule map_of_SomeD)
  ultimately show ?thesis using Some by (auto simp: dict_get_def valid_table_def)
qed

lemma add_event_valid:
  assumes "add_event ad ev = Inr ad'" and "valid_table ad" and "uint256 (amount_in ev)"
  shows "valid_table ad'"
proof -
  let ?a = "lower (address ev)"
  have k: "known_pool (pool ev)" and
    ad': "ad' = AList.update ?a (apply_event (dict_get ad ?a new_entry) ev) ad"
    using assms(1) by (simp_all add: add_event_Inr_iff)
  obtain c where c: "map_of collection_map (pool ev) = Some c" using k by (auto simp: known_pool_def)
  have "event_collection ev \<in> set collection_names"
    using collection_map_names[OF c] by (simp add: event_collection_def dict_get_def c)
  then have v: "valid_entry (apply_event (dict_get ad ?a new_entry) ev)"
    unfolding apply_event_def
    using valid_entry_update valid_entry_dict_get[OF assms(2)] event_volume_nonneg[OF assms(3)]
    by blast
  have "\<forall>ar \<in> set ad'. valid_entry (snd ar)"
    using update_subset[of ?a "apply_event (dict_get ad ?a new_entry) ev" ad] v assms(2)
    unfolding ad' valid_table_def by auto
  then show ?thesis using assms(2) by (simp add: valid_table_def ad' distinct_update)
qed

lemma loop_valid:
  assumes "calculate_volumes_loop ad evs = Inr ad'" and "valid_table ad"
    and "\<forall>e \<in> set evs. uint256 (amount_in e)"
  shows "valid_table ad'"
  using assms
proof (induction evs arbitrary: ad)
  case Nil
  then show ?case by simp
next
  case (Cons ev evs)
  then obtain ad1 where a: "add_event ad ev = Inr ad1" and l: "calculate_volumes_loop ad1 evs = Inr ad'"
    by (auto split: sum.splits)
  have "valid_table ad1" using add_event_valid[OF a Cons.prems(2)] Cons.prems(3) by simp
  then show ?case using Cons.IH[OF l] Cons.prems(3) by simp
qed

lemma calculate_volumes_valid:
  assumes "calculate_volumes evs = Inr ad" and "\<forall>e \<in> set evs. uint256 (amount_in e)"
  shows "valid_table ad"
  using loop_valid[of "[]" evs ad] assms by (simp add: calculate_volumes_def valid_table_def)

section \<open>Rounding error of sums\<close>

lemma u_pos: "0 < unit_roundoff" "unit_roundoff < 1"
  by (simp_all add: unit_roundoff_def)

lemma rnd_lo: "0 \<le> x \<Longrightarrow> (1 - unit_roundoff) * x \<le> rnd x"
  unfolding unit_roundoff_def by (rule rnd_bounds(1))

lemma rnd_hi: "0 \<le> x \<Longrightarrow> rnd x \<le> (1 + unit_roundoff) * x"
  unfolding unit_roundoff_def by (rule rnd_bounds(2))

lemma foldl_fadd_bounds:
  assumes "\<forall>x \<in> set xs. 0 \<le> x" and "0 \<le> A"
    and "(1 - unit_roundoff) ^ k * A \<le> a" and "a \<le> (1 + unit_roundoff) ^ k * A"
  shows "(1 - unit_roundoff) ^ (k + length xs) * (A + sum_list xs) \<le> foldl fadd a xs
       \<and> foldl fadd a xs \<le> (1 + unit_roundoff) ^ (k + length xs) * (A + sum_list xs)"
  using assms
proof (induction xs arbitrary: a A k)
  case Nil
  then show ?case by simp
next
  case (Cons x xs)
  let ?l = "1 - unit_roundoff" and ?h = "1 + unit_roundoff"
  have x: "0 \<le> x" using Cons.prems(1) by simp
  have l01: "0 \<le> ?l" "?l \<le> 1" "1 \<le> ?h" "0 \<le> ?h" using u_pos by simp_all
  have lk: "0 \<le> ?l ^ k" "?l ^ k \<le> 1" using l01 by (simp_all add: power_le_one)
  have hk: "1 \<le> ?h ^ k" using l01 by (simp add: one_le_power)
  have a0: "0 \<le> a" using Cons.prems(2,3) lk(1) by (meson mult_nonneg_nonneg order_trans)
  have ax: "0 \<le> a + x" using a0 x by simp
  have "?l ^ k * (A + x) = ?l ^ k * A + ?l ^ k * x" by (simp add: algebra_simps)
  also have "\<dots> \<le> a + x" using Cons.prems(3) lk(2) x mult_left_le_one_le[of x "?l ^ k"] lk(1)
    by (simp add: add_mono mult.commute)
  finally have lo1: "?l ^ k * (A + x) \<le> a + x" .
  have "a + x \<le> ?h ^ k * A + ?h ^ k * x"
    using Cons.prems(4) hk x mult_right_mono[of 1 "?h ^ k" x] by (simp add: add_mono)
  then have hi1: "a + x \<le> ?h ^ k * (A + x)" by (simp add: algebra_simps)
  have "?l ^ Suc k * (A + x) = ?l * (?l ^ k * (A + x))" by simp
  also have "\<dots> \<le> ?l * (a + x)" using lo1 l01(1) by (rule mult_left_mono)
  also have "\<dots> \<le> fadd a x" unfolding fadd_def by (rule rnd_lo[OF ax])
  finally have lo: "?l ^ Suc k * (A + x) \<le> fadd a x" .
  have "fadd a x \<le> ?h * (a + x)" unfolding fadd_def by (rule rnd_hi[OF ax])
  also have "\<dots> \<le> ?h * (?h ^ k * (A + x))" using hi1 l01(4) by (rule mult_left_mono)
  also have "\<dots> = ?h ^ Suc k * (A + x)" by simp
  finally have hi: "fadd a x \<le> ?h ^ Suc k * (A + x)" .
  have "0 \<le> A + x" using Cons.prems(2) x by simp
  from Cons.IH[OF _ this lo hi] Cons.prems(1)
  show ?case by (simp add: add.assoc)
qed

lemma pysum_bounds:
  assumes "\<forall>x \<in> set xs. 0 \<le> x"
  shows "(1 - unit_roundoff) ^ length xs * sum_list xs \<le> pysum xs"
    and "pysum xs \<le> (1 + unit_roundoff) ^ length xs * sum_list xs"
  using foldl_fadd_bounds[OF assms, of 0 0 0] by (simp_all add: pysum_def)

lemma pysum_pos_iff:
  assumes "\<forall>x \<in> set xs. 0 \<le> x"
  shows "0 < pysum xs \<longleftrightarrow> 0 < sum_list xs"
proof
  assume "0 < pysum xs"
  then have "0 < (1 + unit_roundoff) ^ length xs * sum_list xs"
    using pysum_bounds(2)[OF assms] by simp
  then show "0 < sum_list xs" using u_pos by (simp add: zero_less_mult_iff)
next
  assume "0 < sum_list xs"
  then have "0 < (1 - unit_roundoff) ^ length xs * sum_list xs" using u_pos by simp
  then show "0 < pysum xs" using pysum_bounds(1)[OF assms] by simp
qed

lemma pysum_nonneg: "\<forall>x \<in> set xs. 0 \<le> x \<Longrightarrow> 0 \<le> pysum xs"
  using pysum_bounds(1)[of xs] u_pos
  by (meson diff_ge_0_iff_ge less_imp_le mult_nonneg_nonneg order_trans sum_list_nonneg zero_le_power)

section \<open>Distribution by total volume\<close>

lemma allocate_by_volume_eq:
  assumes "distinct (map fst ad)" and "fst ` set ad \<inter> fst ` set dst = {}"
  shows "allocate_by_volume tv T ad dst =
           Inr (dst @ map (\<lambda>ar. (fst ar, volume_share tv T (snd ar))) ad)"
  using assms
proof (induction ad arbitrary: dst)
  case Nil
  then show ?case by simp
next
  case (Cons x ad)
  obtain a d where x: "x = (a, d)" by (cases x)
  have n: "a \<notin> fst ` set dst" using Cons.prems(2) x by auto
  let ?dst' = "dst @ [(a, volume_share tv T d)]"
  have d: "distinct (map fst ad)" using Cons.prems(1) by simp
  have i: "fst ` set ad \<inter> fst ` set ?dst' = {}" using Cons.prems x by auto
  have "allocate_by_volume tv T (x # ad) dst = allocate_by_volume tv T ad ?dst'"
    unfolding x by (simp add: fdiv_def volume_share_def update_new_key[OF n])
  then show ?case using Cons.IH[OF d i] by (simp add: x)
qed

lemma distribute_by_total_volume_eq:
  assumes "distinct (map fst ad)"
  shows "distribute_by_total_volume ad T =
           Inr (map (\<lambda>ar. (fst ar, volume_share (pysum (map (\<lambda>(a, d). total_volume d) ad)) T (snd ar))) ad)"
  unfolding distribute_by_total_volume_def using allocate_by_volume_eq[OF assms, of "[]"] by simp

lemma volume_share_bounds:
  assumes "0 < tv" and "0 \<le> T" and "0 \<le> total_volume d"
  shows "(1 - unit_roundoff)\<^sup>2 * (total_volume d * rnd T / tv) \<le> volume_share tv T d"
    and "volume_share tv T d \<le> (1 + unit_roundoff)\<^sup>2 * (total_volume d * rnd T / tv)"
proof -
  let ?l = "1 - unit_roundoff" and ?h = "1 + unit_roundoff"
  let ?x = "total_volume d / tv"
  have l0: "0 \<le> ?l" "0 \<le> ?h" using u_pos by simp_all
  have T0: "0 \<le> rnd T" by (rule rnd_nonneg[OF assms(2)])
  have x0: "0 \<le> ?x" using assms by simp
  have q0: "0 \<le> rnd ?x" by (rule rnd_nonneg[OF x0])
  have qT: "0 \<le> rnd ?x * rnd T" using q0 T0 by simp
  have "?l\<^sup>2 * (total_volume d * rnd T / tv) = ?l * ((?l * ?x) * rnd T)"
    by (simp add: power2_eq_square)
  also have "\<dots> \<le> ?l * (rnd ?x * rnd T)"
    using rnd_lo[OF x0] T0 l0(1) by (intro mult_left_mono mult_right_mono)
  also have "\<dots> \<le> rnd (rnd ?x * rnd T)" by (rule rnd_lo[OF qT])
  finally show "?l\<^sup>2 * (total_volume d * rnd T / tv) \<le> volume_share tv T d"
    using assms(1) by (simp add: volume_share_def fmul_def)
  have "rnd (rnd ?x * rnd T) \<le> ?h * (rnd ?x * rnd T)" by (rule rnd_hi[OF qT])
  also have "\<dots> \<le> ?h * ((?h * ?x) * rnd T)"
    using rnd_hi[OF x0] T0 l0(2) by (intro mult_left_mono mult_right_mono)
  also have "\<dots> = ?h\<^sup>2 * (total_volume d * rnd T / tv)" by (simp add: power2_eq_square)
  finally show "volume_share tv T d \<le> ?h\<^sup>2 * (total_volume d * rnd T / tv)"
    using assms(1) by (simp add: volume_share_def fmul_def)
qed

lemma volume_share_sum_bounds:
  assumes "0 < tv" and "0 \<le> T" and "\<forall>d \<in> set ds. 0 \<le> total_volume d"
  shows "(1 - unit_roundoff)\<^sup>2 * (sum_list (map total_volume ds) * rnd T / tv)
           \<le> sum_list (map (volume_share tv T) ds)
       \<and> sum_list (map (volume_share tv T) ds)
           \<le> (1 + unit_roundoff)\<^sup>2 * (sum_list (map total_volume ds) * rnd T / tv)"
  using assms(3)
proof (induction ds)
  case Nil
  then show ?case by simp
next
  case (Cons d ds)
  have d: "0 \<le> total_volume d" using Cons.prems by simp
  note b = volume_share_bounds[OF assms(1,2) d]
  have e: "sum_list (map total_volume (d # ds)) * rnd T / tv =
             total_volume d * rnd T / tv + sum_list (map total_volume ds) * rnd T / tv"
    by (simp add: algebra_simps add_divide_distrib)
  show ?case unfolding e using b Cons by (simp add: algebra_simps add_mono)
qed

lemma sum_list_table: "map (\<lambda>(a, d). total_volume d) ad = map total_volume (map snd ad)"
  by (induction ad) auto

text \<open>
  The by-total-volume distribution for any supply \<open>T\<close> that is not negative, in terms of
  the float \<open>rnd T\<close> the supply is converted to.
\<close>

lemma by_total_volume_bounds:
  assumes "valid_table ad" and "0 \<le> T"
  shows "\<exists>dst. distribute_by_total_volume ad T = Inr dst \<and> map fst dst = map fst ad \<and>
           (if 0 < sum_list (map (\<lambda>(a, d). total_volume d) ad)
            then rnd T * (1 - unit_roundoff)\<^sup>2 / (1 + unit_roundoff) ^ length ad
                   \<le> sum_list (map snd dst)
               \<and> sum_list (map snd dst)
                   \<le> rnd T * (1 + unit_roundoff)\<^sup>2 / (1 - unit_roundoff) ^ length ad
            else \<forall>v \<in> snd ` set dst. v = 0)"
proof -
  let ?l = "1 - unit_roundoff" and ?h = "1 + unit_roundoff"
  let ?ds = "map snd ad"
  let ?vs = "map total_volume ?ds"
  let ?n = "length ad"
  define tv where "tv = pysum ?vs"
  define S where "S = sum_list ?vs"
  define R where "R = rnd T"
  define dst where "dst = map (\<lambda>ar. (fst ar, volume_share tv T (snd ar))) ad"
  have dd: "distinct (map fst ad)" using assms(1) by (simp add: valid_table_def)
  have nn: "\<forall>d \<in> set ?ds. 0 \<le> total_volume d"
    using assms(1) by (auto simp: valid_table_def valid_entry_def)
  then have nv: "\<forall>x \<in> set ?vs. 0 \<le> x" by simp
  have R0: "0 \<le> R" unfolding R_def by (rule rnd_nonneg[OF assms(2)])
  have r: "distribute_by_total_volume ad T = Inr dst"
    unfolding dst_def tv_def using distribute_by_total_volume_eq[OF dd, of T]
    by (simp add: sum_list_table)
  have k: "map fst dst = map fst ad" by (simp add: dst_def)
  have s: "map snd dst = map (volume_share tv T) ?ds" by (simp add: dst_def)
  have S: "sum_list (map (\<lambda>(a, d). total_volume d) ad) = S" by (simp add: S_def sum_list_table)
  show ?thesis
  proof (cases "0 < S")
    case True
    have tv: "0 < tv" unfolding tv_def using pysum_pos_iff[OF nv] True by (simp add: S_def)
    have hn: "0 < ?h ^ ?n" "0 < ?l ^ ?n" using u_pos by simp_all
    have b1: "?l ^ ?n * S \<le> tv" and b2: "tv \<le> ?h ^ ?n * S"
      using pysum_bounds[OF nv] by (simp_all add: tv_def S_def)
    note vb = volume_share_sum_bounds[OF tv assms(2) nn, folded S_def R_def]
    have ST: "0 \<le> S * R" using True R0 by simp
    have "R / ?h ^ ?n = S * R / (?h ^ ?n * S)" using True by simp
    also have "\<dots> \<le> S * R / tv"
      using b2 tv ST hn(1) True by (intro divide_left_mono) simp_all
    finally have "?l\<^sup>2 * (R / ?h ^ ?n) \<le> ?l\<^sup>2 * (S * R / tv)"
      by (intro mult_left_mono) simp_all
    then have lo: "R * ?l\<^sup>2 / ?h ^ ?n \<le> sum_list (map snd dst)"
      using vb unfolding s by (simp add: mult.commute)
    have "S * R / tv \<le> S * R / (?l ^ ?n * S)"
      using b1 tv ST hn(2) True by (intro divide_left_mono) simp_all
    also have "\<dots> = R / ?l ^ ?n" using True by simp
    finally have "?h\<^sup>2 * (S * R / tv) \<le> ?h\<^sup>2 * (R / ?l ^ ?n)"
      by (intro mult_left_mono) simp_all
    then have hi: "sum_list (map snd dst) \<le> R * ?h\<^sup>2 / ?l ^ ?n"
      using vb unfolding s by (simp add: mult.commute)
    show ?thesis using r k lo hi True S unfolding R_def by auto
  next
    case False
    then have "\<not> 0 < tv" unfolding tv_def using pysum_pos_iff[OF nv] by (simp add: S_def)
    then have "\<forall>v \<in> snd ` set dst. v = 0" by (auto simp: dst_def volume_share_def)
    then show ?thesis using r k False S by auto
  qed
qed

lemma rnd_supply: "rnd TOTAL_BERA_TOKENS = TOTAL_BERA_TOKENS"
  unfolding TOTAL_BERA_TOKENS_def by code_simp

lemma supply_nonneg: "0 \<le> TOTAL_BERA_TOKENS"
  by (simp add: TOTAL_BERA_TOKENS_def)

text \<open>
  C2, as the code has it. On a table of the aggregation whose magnitudes are in range (at
  most \<open>2^32\<close> addresses, every volume 0 or between \<open>2^-64\<close> and \<open>2^256\<close>) and with the
  configured supply \<open>T = 34000\<close>, \<open>distribute_by_total_volume\<close> raises nothing and gives
  every address of the table one allocation. When the total volume is zero every
  allocation is exactly 0 and no division is made. When it is positive the allocations
  sum to \<open>T\<close> up to rounding: with \<open>u = 2^-53\<close> and n addresses, the exact sum of the
  stored floats lies between \<open>T (1 - u)^2 / (1 + u)^n\<close> and \<open>T (1 + u)^2 / (1 - u)^n\<close>.
\<close>

theorem by_total_volume_sum:
  assumes "valid_table ad" and "table_in_range ad"
  shows "\<exists>dst. distribute_by_total_volume ad TOTAL_BERA_TOKENS = Inr dst
           \<and> map fst dst = map fst ad \<and>
           (if 0 < sum_list (map (\<lambda>(a, d). total_volume d) ad)
            then TOTAL_BERA_TOKENS * (1 - unit_roundoff)\<^sup>2 / (1 + unit_roundoff) ^ length ad
                   \<le> sum_list (map snd dst)
               \<and> sum_list (map snd dst)
                   \<le> TOTAL_BERA_TOKENS * (1 + unit_roundoff)\<^sup>2 / (1 - unit_roundoff) ^ length ad
            else \<forall>v \<in> snd ` set dst. v = 0)"
  using by_total_volume_bounds[OF assms(1) supply_nonneg] unfolding rnd_supply .

lemma uneven_by_volume:
  "distribute_by_total_volume uneven_table 34000 =
     Inr [(''0xa'', 3115282945365333 / 549755813888),
          (''0xb'', 3115282945365333 / 137438953472),
          (''0xc'', 3115282945365333 / 549755813888)]"
proof -
  have r:
    "rnd (1 / 6) = 6004799503160661 / 36028797018963968"
    "rnd (2 / 3) = 6004799503160661 / 9007199254740992"
    "rnd 1 = 1"
    "rnd 5 = 5"
    "rnd 6 = 6"
    "rnd 34000 = 34000"
    "rnd (12760198944216404625 / 2251799813685248) = 3115282945365333 / 549755813888"
    "rnd (12760198944216404625 / 562949953421312) = 3115282945365333 / 137438953472"
    by code_simp+
  show ?thesis
    by (simp add: distribute_by_total_volume_def uneven_table_def pysum_def fadd_def fmul_def
          fdiv_def r)
qed

lemma uneven_aggregated: "calculate_volumes uneven_trades = Inr uneven_table"
proof -
  have r: "rnd 1 = 1" "rnd 4 = 4"
    "rnd 1000000000000000000 = 1000000000000000000"
    "rnd 4000000000000000000 = 4000000000000000000"
    by code_simp+
  have w: "wei_to_bera 1000000000000000000 = Inr 1" "wei_to_bera 4000000000000000000 = Inr 4"
    by (simp_all add: wei_to_bera_def int_to_float_def fdiv_def r)
  show ?thesis
    by (simp add: calculate_volumes_def uneven_trades_def uneven_table_def trade_def
          add_event_def w lower_def lower_char_def YEETARD_POOL_def collection_map_def
          dict_get_def new_entry_def update_entry_def fadd_def r Let_def)
qed

lemma uneven_valid: "valid_table uneven_table"
  by (simp add: valid_table_def valid_entry_def uneven_table_def collection_names_def)

lemma uneven_in_range: "table_in_range uneven_table"
  by (simp add: table_in_range_def volume_in_range_def uneven_table_def)

lemma zero_valid: "valid_table zero_table"
  by (simp add: valid_table_def valid_entry_def zero_table_def collection_names_def)

lemma zero_in_range: "table_in_range zero_table"
  by (simp add: table_in_range_def volume_in_range_def zero_table_def)

theorem by_total_volume_sum_witness:
  "valid_table uneven_table \<and> table_in_range uneven_table
   \<and> distribute_by_total_volume uneven_table TOTAL_BERA_TOKENS =
       Inr [(''0xa'', 3115282945365333 / 549755813888),
            (''0xb'', 3115282945365333 / 137438953472),
            (''0xc'', 3115282945365333 / 549755813888)]
   \<and> 34000 * (1 - unit_roundoff)\<^sup>2 / (1 + unit_roundoff) ^ 3 \<le> 9345848836095999 / 274877906944
   \<and> 9345848836095999 / 274877906944 \<le> 34000 * (1 + unit_roundoff)\<^sup>2 / (1 - unit_roundoff) ^ 3
   \<and> valid_table zero_table \<and> table_in_range zero_table
   \<and> distribute_by_total_volume zero_table TOTAL_BERA_TOKENS = Inr [(''0xa'', 0)]"
proof -
  have s: "0 < sum_list (map (\<lambda>(a, d). total_volume d) uneven_table)"
    by (simp add: uneven_table_def)
  have l: "length uneven_table = 3" by (simp add: uneven_table_def)
  have u: "distribute_by_total_volume uneven_table TOTAL_BERA_TOKENS =
       Inr [(''0xa'', 3115282945365333 / 549755813888),
            (''0xb'', 3115282945365333 / 137438953472),
            (''0xc'', 3115282945365333 / 549755813888)]"
    using uneven_by_volume by (simp only: TOTAL_BERA_TOKENS_def)
  from by_total_volume_sum[OF uneven_valid uneven_in_range] u s
  have a: "34000 * (1 - unit_roundoff)\<^sup>2 / (1 + unit_roundoff) ^ 3 \<le> 9345848836095999 / 274877906944
   \<and> 9345848836095999 / 274877906944 \<le> 34000 * (1 + unit_roundoff)\<^sup>2 / (1 - unit_roundoff) ^ 3"
    unfolding l TOTAL_BERA_TOKENS_def by auto
  from by_total_volume_sum[OF zero_valid zero_in_range]
  have b: "distribute_by_total_volume zero_table TOTAL_BERA_TOKENS = Inr [(''0xa'', 0)]"
    by (auto simp: zero_table_def)
  show ?thesis using a b u uneven_valid uneven_in_range zero_valid zero_in_range by simp
qed

text \<open>
  C2 as stated fails: with volumes 1, 4 and 1 and a supply of 34000 the three allocations
  are the floats nearest to 5666.66, 22666.66 and 5666.66; their exact sum and their
  float sum (the script's own verification total) both differ from 34000.
\<close>

theorem by_total_volume_sum_counterexample:
  "calculate_volumes uneven_trades = Inr uneven_table
   \<and> distribute_by_total_volume uneven_table 34000 =
       Inr [(''0xa'', 3115282945365333 / 549755813888),
            (''0xb'', 3115282945365333 / 137438953472),
            (''0xc'', 3115282945365333 / 549755813888)]
   \<and> sum_list (map snd [(''0xa'', 3115282945365333 / 549755813888 :: rat),
                          (''0xb'', 3115282945365333 / 137438953472),
                          (''0xc'', 3115282945365333 / 549755813888)])
       = 9345848836095999 / 274877906944
   \<and> (9345848836095999 / 274877906944 :: rat) \<noteq> 34000
   \<and> pysum (map snd [(''0xa'', 3115282945365333 / 549755813888 :: rat),
                       (''0xb'', 3115282945365333 / 137438953472),
                       (''0xc'', 3115282945365333 / 549755813888)])
       = 4672924418047999 / 137438953472
   \<and> (4672924418047999 / 137438953472 :: rat) \<noteq> 34000"
proof -
  have r:
    "rnd (3115282945365333 / 549755813888) = 3115282945365333 / 549755813888"
    "rnd (15576414726826665 / 549755813888) = 1947051840853333 / 68719476736"
    "rnd (18691697672191997 / 549755813888) = 4672924418047999 / 137438953472"
    by code_simp+
  have p: "pysum (map snd [(''0xa'', 3115282945365333 / 549755813888 :: rat),
                       (''0xb'', 3115282945365333 / 137438953472),
                       (''0xc'', 3115282945365333 / 549755813888)])
       = 4672924418047999 / 137438953472"
    by (simp add: pysum_def fadd_def r)
  show ?thesis using uneven_aggregated uneven_by_volume p by simp
qed

section \<open>Distribution by collection\<close>

lemma map_of_keyed: "map_of (map (\<lambda>c. (c, f c)) ks) c = (if c \<in> set ks then Some (f c) else None)"
  by (induction ks) auto

lemma update_keyed:
  "distinct ks \<Longrightarrow> k \<in> set ks \<Longrightarrow>
   AList.update k m (map (\<lambda>c. (c, f c)) ks) = map (\<lambda>c. (c, (f(k := m)) c)) ks"
  by (induction ks) auto

lemma tab_lookup: "c \<in> set collection_names \<Longrightarrow> map_of (tab f) c = Some (f c)"
  by (simp add: tab_def map_of_keyed)

lemma tab_update: "c \<in> set collection_names \<Longrightarrow> AList.update c m (tab f) = tab (f(c := m))"
  unfolding tab_def by (rule update_keyed) (simp_all add: collection_names_def)

lemma tab_init: "collection_volumes_init = tab (\<lambda>c. [])"
  by (simp add: collection_volumes_init_def tab_def collection_names_def)

lemma contrib_Cons:
  "contrib a ((c0, v0) # cs) c = (if c0 = c \<and> 0 < v0 then (a, v0) # contrib a cs c else contrib a cs c)"
  by (simp add: contrib_def)

lemma contrib_keys: "fst ` set (contrib a cs c) \<subseteq> {a}"
  by (auto simp: contrib_def)

lemma contrib_absent: "c \<notin> fst ` set cs \<Longrightarrow> contrib a cs c = []"
  by (auto simp: contrib_def filter_empty_conv)

lemma group_collections_tab:
  assumes "distinct (map fst cs)" and "\<forall>x \<in> set cs. fst x \<in> set collection_names"
    and "\<forall>c \<in> fst ` set cs. a \<notin> fst ` set (f c)"
  shows "group_collections a cs (tab f) = Inr (tab (\<lambda>c. f c @ contrib a cs c))"
  using assms
proof (induction cs arbitrary: f)
  case Nil
  then show ?case by (simp add: contrib_def)
next
  case (Cons x cs)
  obtain c0 v0 where x: "x = (c0, v0)" by (cases x)
  have c0: "c0 \<in> set collection_names" "c0 \<notin> fst ` set cs" using Cons.prems(1,2) x by auto
  have d: "distinct (map fst cs)" "\<forall>x \<in> set cs. fst x \<in> set collection_names"
    using Cons.prems(1,2) by auto
  show ?case
  proof (cases "0 < v0")
    case True
    define f1 where "f1 = f(c0 := f c0 @ [(a, v0)])"
    have n: "a \<notin> fst ` set (f c0)" using Cons.prems(3) x by simp
    have k: "\<forall>c \<in> fst ` set cs. a \<notin> fst ` set (f1 c)"
      using Cons.prems(3) c0(2) by (auto simp: f1_def)
    have e: "(\<lambda>c. f1 c @ contrib a cs c) = (\<lambda>c. f c @ contrib a (x # cs) c)"
    proof (rule ext)
      fix c
      show "f1 c @ contrib a cs c = f c @ contrib a (x # cs) c"
        unfolding x using True c0(2) by (cases "c = c0") (simp_all add: f1_def contrib_Cons)
    qed
    have "map_of (tab f) c0 = Some (f c0)" by (rule tab_lookup[OF c0(1)])
    moreover have "AList.update c0 (AList.update a v0 (f c0)) (tab f) = tab f1"
      unfolding f1_def update_new_key[OF n] by (rule tab_update[OF c0(1)])
    ultimately have "group_collections a (x # cs) (tab f) = group_collections a cs (tab f1)"
      unfolding x using True by (simp only: group_collections.simps if_True option.case)
    then show ?thesis using Cons.IH[OF d k] by (simp only: e)
  next
    case False
    have k: "\<forall>c \<in> fst ` set cs. a \<notin> fst ` set (f c)" using Cons.prems(3) by auto
    have e: "(\<lambda>c. f c @ contrib a cs c) = (\<lambda>c. f c @ contrib a (x # cs) c)"
      unfolding x using False by (simp add: contrib_Cons)
    have "group_collections a (x # cs) (tab f) = group_collections a cs (tab f)"
      unfolding x using False by (simp only: group_collections.simps if_False)
    then show ?thesis using Cons.IH[OF d k] by (simp only: e)
  qed
qed

lemma members_Cons: "members ((a, d) # ad) c = contrib a (collections d) c @ members ad c"
  by (simp add: members_def)

lemma group_addresses_tab:
  assumes "valid_table ad" and "\<forall>c. fst ` set (f c) \<inter> fst ` set ad = {}"
  shows "group_addresses ad (tab f) = Inr (tab (\<lambda>c. f c @ members ad c))"
  using assms
proof (induction ad arbitrary: f)
  case Nil
  then show ?case by (simp add: members_def)
next
  case (Cons x ad)
  obtain a d where x: "x = (a, d)" by (cases x)
  have v: "valid_entry d" "valid_table ad" "a \<notin> fst ` set ad"
    using Cons.prems(1) unfolding x valid_table_def by auto
  define f1 where "f1 = (\<lambda>c. f c @ contrib a (collections d) c)"
  have na: "\<forall>c. a \<notin> fst ` set (f c)" using Cons.prems(2) unfolding x by auto
  have g: "group_collections a (collections d) (tab f) = Inr (tab f1)"
    unfolding f1_def
  proof (rule group_collections_tab)
    show "distinct (map fst (collections d))" using v(1) by (simp add: valid_entry_def)
    show "\<forall>x \<in> set (collections d). fst x \<in> set collection_names"
      using v(1) by (simp add: valid_entry_def)
    show "\<forall>c \<in> fst ` set (collections d). a \<notin> fst ` set (f c)" using na by simp
  qed
  have k: "\<forall>c. fst ` set (f1 c) \<inter> fst ` set ad = {}"
  proof
    fix c
    have "fst ` set (f1 c) \<subseteq> fst ` set (f c) \<union> {a}"
      unfolding f1_def using contrib_keys[of a "collections d" c] by auto
    moreover have "fst ` set (f c) \<inter> fst ` set ad = {}" using Cons.prems(2) unfolding x by auto
    ultimately show "fst ` set (f1 c) \<inter> fst ` set ad = {}" using v(3) by blast
  qed
  have e: "(\<lambda>c. f1 c @ members ad c) = (\<lambda>c. f c @ members (x # ad) c)"
    unfolding x f1_def by (simp add: members_Cons)
  have "group_addresses (x # ad) (tab f) = group_addresses ad (tab f1)"
    unfolding x by (simp only: group_addresses.simps g sum.case)
  then show ?case using Cons.IH[OF v(2) k] by (simp only: e)
qed

lemma group_addresses_init:
  assumes "valid_table ad"
  shows "group_addresses ad collection_volumes_init = Inr (tab (members ad))"
  using group_addresses_tab[OF assms, of "\<lambda>c. []"] by (simp add: tab_init)

lemma sum_update:
  "sum_list (map snd (AList.update k v d)) = sum_list (map snd d) - dict_get d k (0::rat) + v"
  by (induction d) (auto simp: dict_get_def)

lemma dict_get_le_sum:
  assumes "\<forall>kv \<in> set d. (0::rat) \<le> snd kv"
  shows "dict_get d k 0 \<le> sum_list (map snd d)"
  using assms
proof (induction d)
  case Nil
  then show ?case by (simp add: dict_get_def)
next
  case (Cons x d)
  have s: "0 \<le> sum_list (map snd d)" using Cons.prems by (intro sum_list_nonneg) auto
  have x: "0 \<le> snd x" using Cons.prems by simp
  show ?case
  proof (cases "fst x = k")
    case True
    then show ?thesis using s by (cases x) (simp add: dict_get_def)
  next
    case False
    then have "dict_get (x # d) k 0 = dict_get d k 0" by (cases x) (simp add: dict_get_def)
    then show ?thesis using Cons.IH Cons.prems x by simp
  qed
qed

lemma within_step:
  assumes "sum_within m X d" and "0 \<le> X" and "0 \<le> al"
  shows "sum_within (Suc m) (X + al) (AList.update a (fadd (dict_get d a 0) al) d)"
proof -
  let ?l = "1 - unit_roundoff" and ?h = "1 + unit_roundoff"
  let ?old = "dict_get d a 0"
  let ?S = "sum_list (map snd d)"
  let ?new = "fadd ?old al"
  have nn: "\<forall>kv \<in> set d. 0 \<le> snd kv" and lo: "?l ^ m * X \<le> ?S" and hi: "?S \<le> ?h ^ m * X"
    using assms(1) by (simp_all add: sum_within_def)
  have l01: "0 \<le> ?l" "?l \<le> 1" "1 \<le> ?h" "0 \<le> ?h" using u_pos by simp_all
  have lk: "0 \<le> ?l ^ m" "?l ^ m \<le> 1" using l01 by (simp_all add: power_le_one)
  have hk: "1 \<le> ?h ^ m" using l01 by (simp add: one_le_power)
  have old0: "0 \<le> ?old" by (rule dict_get_nonneg[OF nn])
  have oldS: "?old \<le> ?S" by (rule dict_get_le_sum[OF nn])
  have oa: "0 \<le> ?old + al" using old0 assms(3) by simp
  have new0: "0 \<le> ?new" using old0 assms(3) by (rule fadd_nonneg)
  have nlo: "?l * (?old + al) \<le> ?new" unfolding fadd_def by (rule rnd_lo[OF oa])
  have nhi: "?new \<le> ?h * (?old + al)" unfolding fadd_def by (rule rnd_hi[OF oa])
  have S': "sum_list (map snd (AList.update a ?new d)) = ?S - ?old + ?new" by (rule sum_update)
  have u0: "0 \<le> unit_roundoff" using u_pos by simp
  \<comment> \<open>lower bound\<close>
  have "?l * (?S + al) = ?S - unit_roundoff * ?S + ?l * al" by (simp add: algebra_simps)
  also have "\<dots> \<le> ?S - unit_roundoff * ?old + ?l * al"
    using mult_left_mono[OF oldS u0] by simp
  also have "\<dots> = ?S - ?old + ?l * (?old + al)" by (simp add: algebra_simps)
  also have "\<dots> \<le> ?S - ?old + ?new" using nlo by simp
  finally have a: "?l * (?S + al) \<le> ?S - ?old + ?new" .
  have "?l ^ m * (X + al) = ?l ^ m * X + ?l ^ m * al" by (simp add: algebra_simps)
  also have "\<dots> \<le> ?S + al"
    using lo mult_right_mono[OF lk(2) assms(3)] by (simp add: add_mono)
  finally have "?l * (?l ^ m * (X + al)) \<le> ?l * (?S + al)" using l01(1) by (rule mult_left_mono)
  then have L: "?l ^ Suc m * (X + al) \<le> ?S - ?old + ?new" using a by (simp add: mult.assoc)
  \<comment> \<open>upper bound\<close>
  have "?S - ?old + ?new \<le> ?S - ?old + ?h * (?old + al)" using nhi by simp
  also have "\<dots> = ?S + unit_roundoff * ?old + ?h * al" by (simp add: algebra_simps)
  also have "\<dots> \<le> ?S + unit_roundoff * ?S + ?h * al"
    using mult_left_mono[OF oldS u0] by simp
  also have "\<dots> = ?h * (?S + al)" by (simp add: algebra_simps)
  finally have b: "?S - ?old + ?new \<le> ?h * (?S + al)" .
  have "?S + al \<le> ?h ^ m * X + ?h ^ m * al"
    using hi mult_right_mono[OF hk assms(3)] by (simp add: add_mono)
  also have "\<dots> = ?h ^ m * (X + al)" by (simp add: algebra_simps)
  finally have "?h * (?S + al) \<le> ?h * (?h ^ m * (X + al))" using l01(4) by (rule mult_left_mono)
  then have H: "?S - ?old + ?new \<le> ?h ^ Suc m * (X + al)" using b by (simp add: mult.assoc)
  have "\<forall>kv \<in> set (AList.update a ?new d). 0 \<le> snd kv"
    using update_subset[of a ?new d] nn new0 by auto
  then show ?thesis unfolding sum_within_def S' using L H by simp
qed

lemma share_nonneg: "0 < tot \<Longrightarrow> 0 \<le> v \<Longrightarrow> 0 \<le> tpc \<Longrightarrow> 0 \<le> share tot tpc v"
  by (simp add: share_def fmul_nonneg rnd_nonneg)

lemma allocate_addresses_within:
  assumes "0 < tot" and "0 \<le> tpc" and "\<forall>av \<in> set avs. 0 \<le> snd av"
    and "sum_within m X d" and "0 \<le> X"
  shows "\<exists>d'. allocate_addresses tot tpc avs d = Inr d'
           \<and> sum_within (m + length avs) (X + sum_list (map (\<lambda>av. share tot tpc (snd av)) avs)) d'
           \<and> fst ` set d' = fst ` set d \<union> fst ` set avs"
  using assms(3-)
proof (induction avs arbitrary: d m X)
  case Nil
  then show ?case by simp
next
  case (Cons x avs)
  obtain a v where x: "x = (a, v)" by (cases x)
  have v: "0 \<le> v" using Cons.prems(1) x by simp
  let ?al = "share tot tpc v"
  let ?d1 = "AList.update a (fadd (dict_get d a 0) ?al) d"
  have al: "0 \<le> ?al" by (rule share_nonneg[OF assms(1) v assms(2)])
  have w: "sum_within (Suc m) (X + ?al) ?d1" by (rule within_step[OF Cons.prems(2,3) al])
  have X: "0 \<le> X + ?al" using Cons.prems(3) al by simp
  have r: "\<forall>av \<in> set avs. 0 \<le> snd av" using Cons.prems(1) by simp
  have s: "allocate_addresses tot tpc (x # avs) d = allocate_addresses tot tpc avs ?d1"
    unfolding x using assms(1) by (simp add: fdiv_def share_def)
  from Cons.IH[OF r w X] obtain d' where d': "allocate_addresses tot tpc avs ?d1 = Inr d'"
      "sum_within (Suc m + length avs) (X + ?al + sum_list (map (\<lambda>av. share tot tpc (snd av)) avs)) d'"
      "fst ` set d' = fst ` set ?d1 \<union> fst ` set avs"
    by blast
  have k: "fst ` set ?d1 = insert a (fst ` set d)" by (simp add: dom_update)
  show ?case using d' s k unfolding x by (auto simp: add.assoc)
qed

lemma share_bounds:
  assumes "0 < tot" and "0 \<le> tpc" and "0 \<le> v"
  shows "(1 - unit_roundoff)\<^sup>2 * (v * tpc / tot) \<le> share tot tpc v"
    and "share tot tpc v \<le> (1 + unit_roundoff)\<^sup>2 * (v * tpc / tot)"
proof -
  let ?l = "1 - unit_roundoff" and ?h = "1 + unit_roundoff"
  let ?x = "v / tot"
  have l0: "0 \<le> ?l" "0 \<le> ?h" using u_pos by simp_all
  have x0: "0 \<le> ?x" using assms by simp
  have q0: "0 \<le> rnd ?x" by (rule rnd_nonneg[OF x0])
  have qT: "0 \<le> rnd ?x * tpc" using q0 assms(2) by simp
  have "?l\<^sup>2 * (v * tpc / tot) = ?l * ((?l * ?x) * tpc)" by (simp add: power2_eq_square)
  also have "\<dots> \<le> ?l * (rnd ?x * tpc)"
    using rnd_lo[OF x0] assms(2) l0(1) by (intro mult_left_mono mult_right_mono)
  also have "\<dots> \<le> rnd (rnd ?x * tpc)" by (rule rnd_lo[OF qT])
  finally show "?l\<^sup>2 * (v * tpc / tot) \<le> share tot tpc v"
    by (simp add: share_def fmul_def)
  have "rnd (rnd ?x * tpc) \<le> ?h * (rnd ?x * tpc)" by (rule rnd_hi[OF qT])
  also have "\<dots> \<le> ?h * ((?h * ?x) * tpc)"
    using rnd_hi[OF x0] assms(2) l0(2) by (intro mult_left_mono mult_right_mono)
  also have "\<dots> = ?h\<^sup>2 * (v * tpc / tot)" by (simp add: power2_eq_square)
  finally show "share tot tpc v \<le> ?h\<^sup>2 * (v * tpc / tot)"
    by (simp add: share_def fmul_def)
qed

lemma share_sum_bounds:
  assumes "0 < tot" and "0 \<le> tpc" and "\<forall>v \<in> set vs. 0 \<le> v"
  shows "(1 - unit_roundoff)\<^sup>2 * (sum_list vs * tpc / tot) \<le> sum_list (map (share tot tpc) vs)
       \<and> sum_list (map (share tot tpc) vs) \<le> (1 + unit_roundoff)\<^sup>2 * (sum_list vs * tpc / tot)"
  using assms(3)
proof (induction vs)
  case Nil
  then show ?case by simp
next
  case (Cons v vs)
  have v: "0 \<le> v" using Cons.prems by simp
  note b = share_bounds[OF assms(1,2) v]
  have e: "sum_list (v # vs) * tpc / tot = v * tpc / tot + sum_list vs * tpc / tot"
    by (simp add: algebra_simps add_divide_distrib)
  show ?case unfolding e using b Cons by (simp add: algebra_simps add_mono)
qed

lemma share_total_bounds:
  assumes "\<forall>v \<in> set vs. 0 \<le> v" and "0 < sum_list vs" and "0 \<le> tpc" and "length vs \<le> n"
  shows "tpc * (1 - unit_roundoff)\<^sup>2 / (1 + unit_roundoff) ^ n
           \<le> sum_list (map (share (pysum vs) tpc) vs)"
    and "sum_list (map (share (pysum vs) tpc) vs)
           \<le> tpc * (1 + unit_roundoff)\<^sup>2 / (1 - unit_roundoff) ^ n"
proof -
  let ?l = "1 - unit_roundoff" and ?h = "1 + unit_roundoff"
  let ?k = "length vs"
  define tv where "tv = pysum vs"
  define S where "S = sum_list vs"
  have S0: "0 < S" using assms(2) by (simp add: S_def)
  have tv: "0 < tv" unfolding tv_def using pysum_pos_iff[OF assms(1)] assms(2) by simp
  have l01: "0 < ?l" "?l \<le> 1" "1 \<le> ?h" "0 < ?h" using u_pos by simp_all
  have hn: "0 < ?h ^ n" "0 < ?l ^ n" using l01 by simp_all
  have "?l ^ n \<le> ?l ^ ?k" using l01 assms(4) by (intro power_decreasing) simp_all
  then have "?l ^ n * S \<le> ?l ^ ?k * S" using S0 by (intro mult_right_mono) simp_all
  then have b1: "?l ^ n * S \<le> tv" using pysum_bounds(1)[OF assms(1)] by (simp add: tv_def S_def)
  have "?h ^ ?k \<le> ?h ^ n" using l01 assms(4) by (intro power_increasing) simp_all
  then have "?h ^ ?k * S \<le> ?h ^ n * S" using S0 by (intro mult_right_mono) simp_all
  then have b2: "tv \<le> ?h ^ n * S" using pysum_bounds(2)[OF assms(1)] by (simp add: tv_def S_def)
  note vb = share_sum_bounds[OF tv assms(3) assms(1), folded S_def]
  have ST: "0 \<le> S * tpc" using S0 assms(3) by simp
  have "tpc / ?h ^ n = S * tpc / (?h ^ n * S)" using S0 by simp
  also have "\<dots> \<le> S * tpc / tv"
    using b2 tv ST hn(1) S0 by (intro divide_left_mono) simp_all
  finally have "?l\<^sup>2 * (tpc / ?h ^ n) \<le> ?l\<^sup>2 * (S * tpc / tv)"
    by (intro mult_left_mono) simp_all
  then show "tpc * ?l\<^sup>2 / ?h ^ n \<le> sum_list (map (share (pysum vs) tpc) vs)"
    using vb unfolding tv_def[symmetric] by (simp add: mult.commute)
  have "S * tpc / tv \<le> S * tpc / (?l ^ n * S)"
    using b1 tv ST hn(2) S0 by (intro divide_left_mono) simp_all
  also have "\<dots> = tpc / ?l ^ n" using S0 by simp
  finally have "?h\<^sup>2 * (S * tpc / tv) \<le> ?h\<^sup>2 * (tpc / ?l ^ n)"
    by (intro mult_left_mono) simp_all
  then show "sum_list (map (share (pysum vs) tpc) vs) \<le> tpc * ?h\<^sup>2 / ?l ^ n"
    using vb unfolding tv_def[symmetric] by (simp add: mult.commute)
qed

lemma contrib_sum:
  assumes "distinct (map fst cs)" and "\<forall>cv \<in> set cs. 0 \<le> snd cv"
  shows "sum_list (map snd (contrib a cs c)) = dict_get cs c 0"
  using assms
proof (induction cs)
  case Nil
  then show ?case by (simp add: contrib_def dict_get_def)
next
  case (Cons x cs)
  obtain c0 v0 where x: "x = (c0, v0)" by (cases x)
  show ?case
  proof (cases "c0 = c")
    case True
    then have "c \<notin> fst ` set cs" using Cons.prems(1) x by auto
    then have "contrib a cs c = []" by (rule contrib_absent)
    moreover have "0 \<le> v0" using Cons.prems(2) x by simp
    ultimately show ?thesis using True unfolding x by (auto simp: contrib_Cons dict_get_def)
  next
    case False
    then have "dict_get (x # cs) c 0 = dict_get cs c 0" unfolding x by (simp add: dict_get_def)
    then show ?thesis using Cons False unfolding x by (simp add: contrib_Cons)
  qed
qed

lemma contrib_length:
  assumes "distinct (map fst cs)"
  shows "length (contrib a cs c) \<le> 1"
  using assms
proof (induction cs)
  case Nil
  then show ?case by (simp add: contrib_def)
next
  case (Cons x cs)
  obtain c0 v0 where x: "x = (c0, v0)" by (cases x)
  show ?case
  proof (cases "c0 = c")
    case True
    then have "c \<notin> fst ` set cs" using Cons.prems(1) x by auto
    then have "contrib a cs c = []" by (rule contrib_absent)
    then show ?thesis unfolding x by (simp add: contrib_Cons)
  next
    case False
    then show ?thesis using Cons unfolding x by (simp add: contrib_Cons)
  qed
qed

lemma contrib_positive: "\<forall>av \<in> set (contrib a cs c). 0 < snd av \<and> fst av = a \<and> (c, snd av) \<in> set cs"
  by (auto simp: contrib_def)

lemma members_sum:
  assumes "valid_table ad"
  shows "sum_list (map snd (members ad c)) = collection_total ad c"
  using assms
proof (induction ad)
  case Nil
  then show ?case by (simp add: members_def collection_total_def)
next
  case (Cons x ad)
  obtain a d where x: "x = (a, d)" by (cases x)
  have v: "valid_entry d" "valid_table ad" using Cons.prems unfolding x valid_table_def by auto
  have "sum_list (map snd (contrib a (collections d) c)) = dict_get (collections d) c 0"
    using v(1) by (intro contrib_sum) (simp_all add: valid_entry_def)
  then show ?case using Cons.IH[OF v(2)] unfolding x by (simp add: members_Cons collection_total_def)
qed

lemma members_length:
  assumes "valid_table ad"
  shows "length (members ad c) \<le> length ad"
  using assms
proof (induction ad)
  case Nil
  then show ?case by (simp add: members_def)
next
  case (Cons x ad)
  obtain a d where x: "x = (a, d)" by (cases x)
  have v: "valid_entry d" "valid_table ad" using Cons.prems unfolding x valid_table_def by auto
  have "length (contrib a (collections d) c) \<le> 1"
    using v(1) by (intro contrib_length) (simp add: valid_entry_def)
  then show ?case using Cons.IH[OF v(2)] unfolding x by (simp add: members_Cons)
qed

lemma members_positive:
  "\<forall>av \<in> set (members ad c). 0 < snd av
      \<and> (\<exists>d. (fst av, d) \<in> set ad \<and> (c, snd av) \<in> set (collections d))"
proof (induction ad)
  case Nil
  then show ?case by (simp add: members_def)
next
  case (Cons x ad)
  obtain a d where x: "x = (a, d)" by (cases x)
  show ?case unfolding x members_Cons using contrib_positive[of a "collections d" c] Cons
    by (auto simp del: contrib_def) 
qed

lemma share_sum_nonneg:
  assumes "0 < tot" and "0 \<le> tpc" and "\<forall>av \<in> set avs. 0 \<le> snd av"
  shows "0 \<le> sum_list (map (\<lambda>av. share tot tpc (snd av)) avs)"
  using assms by (intro sum_list_nonneg) (auto intro: share_nonneg)

lemma allocate_collections_within:
  assumes "0 \<le> tpc" and "\<forall>cv \<in> set cvs. \<forall>av \<in> set (snd cv). 0 \<le> snd av"
    and "sum_within m X d" and "0 \<le> X"
  shows "\<exists>d'. allocate_collections tpc cvs d = Inr d'
           \<and> sum_within (m + collection_updates cvs) (X + collection_ideal tpc cvs) d'
           \<and> fst ` set d' \<subseteq> fst ` set d \<union> (\<Union>cv \<in> set cvs. fst ` set (snd cv))"
  using assms(2-)
proof (induction cvs arbitrary: d m X)
  case Nil
  then show ?case by (simp add: collection_updates_def collection_ideal_def)
next
  case (Cons x cvs)
  obtain c avs where x: "x = (c, avs)" by (cases x)
  define tot where "tot = pysum (map snd avs)"
  have nn: "\<forall>av \<in> set avs. 0 \<le> snd av" using Cons.prems(1) x by simp
  have r: "\<forall>cv \<in> set cvs. \<forall>av \<in> set (snd cv). 0 \<le> snd av" using Cons.prems(1) by simp
  show ?case
  proof (cases "0 < tot")
    case True
    let ?Y = "sum_list (map (\<lambda>av. share tot tpc (snd av)) avs)"
    from allocate_addresses_within[OF True assms(1) nn Cons.prems(2,3)]
    obtain d1 where d1: "allocate_addresses tot tpc avs d = Inr d1"
        "sum_within (m + length avs) (X + ?Y) d1"
        "fst ` set d1 = fst ` set d \<union> fst ` set avs"
      by blast
    have X1: "0 \<le> X + ?Y" using Cons.prems(3) share_sum_nonneg[OF True assms(1) nn] by simp
    from Cons.IH[OF r d1(2) X1]
    obtain d' where d': "allocate_collections tpc cvs d1 = Inr d'"
        "sum_within (m + length avs + collection_updates cvs) (X + ?Y + collection_ideal tpc cvs) d'"
        "fst ` set d' \<subseteq> fst ` set d1 \<union> (\<Union>cv \<in> set cvs. fst ` set (snd cv))"
      by blast
    have s: "allocate_collections tpc (x # cvs) d = allocate_collections tpc cvs d1"
      unfolding x using True d1(1) by (simp add: tot_def Let_def)
    have u: "collection_updates (x # cvs) = length avs + collection_updates cvs"
      unfolding x using True by (simp add: collection_updates_def tot_def)
    have i: "collection_ideal tpc (x # cvs) = ?Y + collection_ideal tpc cvs"
      unfolding x using True by (simp add: collection_ideal_def tot_def)
    have k: "fst ` set d' \<subseteq> fst ` set d \<union> (\<Union>cv \<in> set (x # cvs). fst ` set (snd cv))"
      using d'(3) d1(3) unfolding x by auto
    show ?thesis unfolding s u i using d'(1,2) k by (auto simp: add.assoc)
  next
    case False
    from Cons.IH[OF r Cons.prems(2,3)]
    obtain d' where d': "allocate_collections tpc cvs d = Inr d'"
        "sum_within (m + collection_updates cvs) (X + collection_ideal tpc cvs) d'"
        "fst ` set d' \<subseteq> fst ` set d \<union> (\<Union>cv \<in> set cvs. fst ` set (snd cv))"
      by blast
    have s: "allocate_collections tpc (x # cvs) d = allocate_collections tpc cvs d"
      unfolding x using False by (simp add: tot_def Let_def)
    have u: "collection_updates (x # cvs) = collection_updates cvs"
      unfolding x using False by (simp add: collection_updates_def tot_def)
    have i: "collection_ideal tpc (x # cvs) = collection_ideal tpc cvs"
      unfolding x using False by (simp add: collection_ideal_def tot_def)
    have k: "fst ` set d' \<subseteq> fst ` set d \<union> (\<Union>cv \<in> set (x # cvs). fst ` set (snd cv))"
      using d'(3) by auto
    show ?thesis unfolding s u i using d'(1,2) k by auto
  qed
qed

lemma sum_list_scaled_bounds:
  fixes b g :: "'a \<Rightarrow> rat"
  assumes "\<forall>c \<in> set cs. b c * L \<le> g c \<and> g c \<le> b c * H"
  shows "sum_list (map b cs) * L \<le> sum_list (map g cs) \<and> sum_list (map g cs) \<le> sum_list (map b cs) * H"
  using assms by (induction cs) (auto simp: algebra_simps add_mono)

lemma sum_list_indicator:
  "sum_list (map (\<lambda>c. if P c then 0 else (1::rat)) cs) = of_nat (length cs) - of_nat (length (filter P cs))"
  by (induction cs) auto

lemma collection_total_nonneg:
  assumes "valid_table ad"
  shows "0 \<le> collection_total ad c"
  unfolding collection_total_def
proof (rule sum_list_nonneg)
  fix x assume "x \<in> set (map (\<lambda>ar. dict_get (collections (snd ar)) c 0) ad)"
  then obtain ar where ar: "ar \<in> set ad" "x = dict_get (collections (snd ar)) c 0" by auto
  have "\<forall>kv \<in> set (collections (snd ar)). 0 \<le> snd kv"
    using assms ar(1) by (auto simp: valid_table_def valid_entry_def)
  then show "0 \<le> x" unfolding ar(2) by (rule dict_get_nonneg)
qed

lemma collection_ideal_tab:
  "collection_ideal tpc (tab f) =
     sum_list (map (\<lambda>c. if 0 < pysum (map snd (f c))
                          then sum_list (map (share (pysum (map snd (f c))) tpc) (map snd (f c)))
                          else 0) collection_names)"
  by (simp add: collection_ideal_def tab_def comp_def cong: if_cong)

lemma collection_updates_tab:
  assumes "\<forall>c. length (f c) \<le> n"
  shows "collection_updates (tab f) \<le> 3 * n"
proof -
  have "collection_updates (tab f) \<le> length (f ''YEETARD'') + length (f ''BULLA'') + length (f ''BABY_BERA'')"
    by (simp add: collection_updates_def tab_def collection_names_def)
  also have "\<dots> \<le> n + n + n" using assms by (intro add_mono) simp_all
  finally show ?thesis by simp
qed

lemma distribute_by_collection_eq:
  assumes "valid_table ad"
  shows "distribute_by_collection ad T = allocate_collections (rnd (T / 3)) (tab (members ad)) []"
  by (simp add: distribute_by_collection_def group_addresses_init[OF assms] Let_def)

lemma tab_members_nonneg: "\<forall>cv \<in> set (tab (members ad)). \<forall>av \<in> set (snd cv). 0 \<le> snd av"
proof (intro ballI)
  fix cv av assume "cv \<in> set (tab (members ad))" and av: "av \<in> set (snd cv)"
  then obtain c where "snd cv = members ad c" by (auto simp: tab_def)
  then show "0 \<le> snd av" using members_positive[of ad c] av by auto
qed

lemma by_collection_within:
  assumes "valid_table ad" and "0 \<le> T"
  shows "\<exists>dst. distribute_by_collection ad T = Inr dst
           \<and> sum_within (collection_updates (tab (members ad)))
                (collection_ideal (rnd (T / 3)) (tab (members ad))) dst
           \<and> fst ` set dst \<subseteq> (\<Union>c \<in> set collection_names. fst ` set (members ad c))"
proof -
  have t: "0 \<le> rnd (T / 3)" using assms(2) by (simp add: rnd_nonneg)
  have w: "sum_within 0 0 []" by (simp add: sum_within_def)
  from allocate_collections_within[OF t tab_members_nonneg w, of ad]
  obtain d' where d': "allocate_collections (rnd (T / 3)) (tab (members ad)) [] = Inr d'"
      "sum_within (0 + collection_updates (tab (members ad)))
         (0 + collection_ideal (rnd (T / 3)) (tab (members ad))) d'"
      "fst ` set d' \<subseteq> fst ` set [] \<union> (\<Union>cv \<in> set (tab (members ad)). fst ` set (snd cv))"
    by auto
  have "(\<Union>cv \<in> set (tab (members ad)). fst ` set (snd cv))
          = (\<Union>c \<in> set collection_names. fst ` set (members ad c))"
    by (auto simp: tab_def)
  then show ?thesis using d' distribute_by_collection_eq[OF assms(1), of T] by auto
qed

lemma collection_ideal_bounds:
  assumes "valid_table ad" and "0 \<le> tpc"
  defines "n \<equiv> length ad"
  defines "K \<equiv> 3 - of_nat (length (zero_volume_collections ad))"
  shows "K * (tpc * (1 - unit_roundoff)\<^sup>2 / (1 + unit_roundoff) ^ n)
           \<le> collection_ideal tpc (tab (members ad))"
    and "collection_ideal tpc (tab (members ad))
           \<le> K * (tpc * (1 + unit_roundoff)\<^sup>2 / (1 - unit_roundoff) ^ n)"
proof -
  let ?L = "tpc * (1 - unit_roundoff)\<^sup>2 / (1 + unit_roundoff) ^ n"
  let ?H = "tpc * (1 + unit_roundoff)\<^sup>2 / (1 - unit_roundoff) ^ n"
  let ?b = "\<lambda>c. if collection_total ad c = 0 then 0 else (1::rat)"
  let ?g = "\<lambda>c. if 0 < pysum (map snd (members ad c))
                 then sum_list (map (share (pysum (map snd (members ad c))) tpc) (map snd (members ad c)))
                 else 0"
  have per: "\<forall>c \<in> set collection_names. ?b c * ?L \<le> ?g c \<and> ?g c \<le> ?b c * ?H"
  proof
    fix c
    let ?vs = "map snd (members ad c)"
    have nn: "\<forall>v \<in> set ?vs. 0 \<le> v" using members_positive[of ad c] by auto
    have S: "sum_list ?vs = collection_total ad c" by (rule members_sum[OF assms(1)])
    have len: "length ?vs \<le> n" using members_length[OF assms(1), of c] by (simp add: n_def)
    show "?b c * ?L \<le> ?g c \<and> ?g c \<le> ?b c * ?H"
    proof (cases "collection_total ad c = 0")
      case True
      then have "\<not> 0 < pysum ?vs" using pysum_pos_iff[OF nn] S by simp
      then show ?thesis using True by simp
    next
      case False
      then have p: "0 < sum_list ?vs" using collection_total_nonneg[OF assms(1), of c] S by simp
      then have "0 < pysum ?vs" using pysum_pos_iff[OF nn] by simp
      then show ?thesis using False share_total_bounds[OF nn p assms(2) len] by simp
    qed
  qed
  have K: "sum_list (map ?b collection_names) = K"
    unfolding sum_list_indicator K_def zero_volume_collections_def
    by (simp add: collection_names_def)
  from sum_list_scaled_bounds[OF per] 
  show "K * ?L \<le> collection_ideal tpc (tab (members ad))"
    and "collection_ideal tpc (tab (members ad)) \<le> K * ?H"
    unfolding K collection_ideal_tab by simp_all
qed

lemma zero_collections_le: "length (zero_volume_collections ad) \<le> 3"
proof -
  have "length (zero_volume_collections ad) \<le> length collection_names"
    unfolding zero_volume_collections_def by (rule length_filter_le)
  then show ?thesis by (simp add: collection_names_def)
qed

text \<open>The by-collection distribution for any supply \<open>T\<close> that is not negative.\<close>

lemma by_collection_bounds:
  assumes "valid_table ad" and "0 \<le> T"
  shows "\<exists>dst. distribute_by_collection ad T = Inr dst
           \<and> (1 - unit_roundoff) ^ (3 * length ad + 3) / (1 + unit_roundoff) ^ length ad
                 * distributable ad T \<le> sum_list (map snd dst)
           \<and> sum_list (map snd dst)
                 \<le> (1 + unit_roundoff) ^ (3 * length ad + 3) / (1 - unit_roundoff) ^ length ad
                     * distributable ad T"
proof -
  let ?l = "1 - unit_roundoff" and ?h = "1 + unit_roundoff"
  define n where "n = length ad"
  define K :: rat where "K = 3 - of_nat (length (zero_volume_collections ad))"
  define tpc where "tpc = rnd (T / 3)"
  define M where "M = collection_updates (tab (members ad))"
  define X where "X = collection_ideal tpc (tab (members ad))"
  have l01: "0 < ?l" "?l \<le> 1" "1 \<le> ?h" "0 < ?h" using u_pos by simp_all
  have K0: "0 \<le> K" using zero_collections_le[of ad] by (simp add: K_def)
  have T3: "0 \<le> T / 3" using assms(2) by simp
  have tpc0: "0 \<le> tpc" unfolding tpc_def by (rule rnd_nonneg[OF T3])
  have tlo: "?l * (T / 3) \<le> tpc" unfolding tpc_def by (rule rnd_lo[OF T3])
  have thi: "tpc \<le> ?h * (T / 3)" unfolding tpc_def by (rule rnd_hi[OF T3])
  have D: "distributable ad T = K * (T / 3)" by (simp add: distributable_def K_def algebra_simps)
  obtain dst where r: "distribute_by_collection ad T = Inr dst" and w: "sum_within M X dst"
    using by_collection_within[OF assms] unfolding M_def X_def tpc_def by blast
  have lo: "?l ^ M * X \<le> sum_list (map snd dst)" and hi: "sum_list (map snd dst) \<le> ?h ^ M * X"
    using w by (simp_all add: sum_within_def)
  have M: "M \<le> 3 * n" unfolding M_def n_def
    by (rule collection_updates_tab) (simp add: members_length[OF assms(1)])
  have Xlo: "K * (tpc * ?l\<^sup>2 / ?h ^ n) \<le> X" and Xhi: "X \<le> K * (tpc * ?h\<^sup>2 / ?l ^ n)"
    using collection_ideal_bounds[OF assms(1) tpc0] unfolding X_def K_def n_def by simp_all
  have X0: "0 \<le> X"
  proof -
    have "0 \<le> K * (tpc * ?l\<^sup>2 / ?h ^ n)" using K0 tpc0 l01 by simp
    then show ?thesis using Xlo by simp
  qed
  \<comment> \<open>lower bound\<close>
  have "?l ^ (3 * n + 3) / ?h ^ n * (K * (T / 3)) = ?l ^ (3 * n) * (K * ((?l * (T / 3)) * ?l\<^sup>2 / ?h ^ n))"
    by (simp add: power_add power2_eq_square power3_eq_cube mult_ac)
  also have "\<dots> \<le> ?l ^ (3 * n) * (K * (tpc * ?l\<^sup>2 / ?h ^ n))"
    using tlo K0 l01 by (intro mult_left_mono divide_right_mono mult_right_mono) simp_all
  also have "\<dots> \<le> ?l ^ (3 * n) * X" using Xlo l01 by (intro mult_left_mono) simp_all
  also have "\<dots> \<le> ?l ^ M * X"
    using power_decreasing[OF M, of ?l] l01 X0 by (intro mult_right_mono) simp_all
  also have "\<dots> \<le> sum_list (map snd dst)" by (rule lo)
  finally have L: "?l ^ (3 * n + 3) / ?h ^ n * (K * (T / 3)) \<le> sum_list (map snd dst)" .
  \<comment> \<open>upper bound\<close>
  have "sum_list (map snd dst) \<le> ?h ^ M * X" by (rule hi)
  also have "\<dots> \<le> ?h ^ (3 * n) * X"
    using power_increasing[OF M, of ?h] l01 X0 by (intro mult_right_mono) simp_all
  also have "\<dots> \<le> ?h ^ (3 * n) * (K * (tpc * ?h\<^sup>2 / ?l ^ n))"
    using Xhi l01 by (intro mult_left_mono) simp_all
  also have "\<dots> \<le> ?h ^ (3 * n) * (K * ((?h * (T / 3)) * ?h\<^sup>2 / ?l ^ n))"
    using thi K0 l01 by (intro mult_left_mono divide_right_mono mult_right_mono) simp_all
  also have "\<dots> = ?h ^ (3 * n + 3) / ?l ^ n * (K * (T / 3))"
    by (simp add: power_add power2_eq_square power3_eq_cube mult_ac)
  finally have H: "sum_list (map snd dst) \<le> ?h ^ (3 * n + 3) / ?l ^ n * (K * (T / 3))" .
  show ?thesis using r L H unfolding D n_def by blast
qed

text \<open>
  C1, as the code has it. On a table of the aggregation whose magnitudes are in range (at
  most \<open>2^32\<close> addresses, every volume 0 or between \<open>2^-64\<close> and \<open>2^256\<close>) and with the
  configured supply \<open>T = 34000\<close>, \<open>distribute_by_collection\<close> raises nothing, and the
  exact sum of the floats it stores equals \<open>T\<close> less \<open>T / 3\<close> for every collection without
  volume only up to rounding: with \<open>u = 2^-53\<close> and n addresses the sum lies between that
  amount times \<open>(1 - u)^(3n+3) / (1 + u)^n\<close> and that amount times
  \<open>(1 + u)^(3n+3) / (1 - u)^n\<close>.
\<close>

theorem by_collection_sum:
  assumes "valid_table ad" and "table_in_range ad"
  shows "\<exists>dst. distribute_by_collection ad TOTAL_BERA_TOKENS = Inr dst
           \<and> (1 - unit_roundoff) ^ (3 * length ad + 3) / (1 + unit_roundoff) ^ length ad
                 * distributable ad TOTAL_BERA_TOKENS \<le> sum_list (map snd dst)
           \<and> sum_list (map snd dst)
                 \<le> (1 + unit_roundoff) ^ (3 * length ad + 3) / (1 - unit_roundoff) ^ length ad
                     * distributable ad TOTAL_BERA_TOKENS"
  by (rule by_collection_bounds[OF assms(1) supply_nonneg])

lemma one_aggregated: "calculate_volumes one_trade = Inr one_table"
proof -
  have r: "rnd 1 = 1" "rnd 1000000000000000000 = 1000000000000000000"
    by code_simp+
  have w: "wei_to_bera 1000000000000000000 = Inr 1"
    by (simp add: wei_to_bera_def int_to_float_def fdiv_def r)
  show ?thesis
    by (simp add: calculate_volumes_def one_trade_def one_table_def one_yeetard_def trade_def
          add_event_def w lower_def lower_char_def YEETARD_POOL_def collection_map_def
          dict_get_def new_entry_def update_entry_def fadd_def r Let_def)
qed

lemma one_by_collection:
  "distribute_by_collection one_table 34000 = Inr [(''0xa'', 6230565890730667 / 549755813888)]"
proof -
  have r: "rnd 1 = 1"
    "rnd (34000 / 3) = 6230565890730667 / 549755813888"
    "rnd (6230565890730667 / 549755813888) = 6230565890730667 / 549755813888"
    by code_simp+
  show ?thesis
    by (simp add: distribute_by_collection_def collection_volumes_init_def one_table_def
          one_yeetard_def dict_get_def pysum_def fadd_def fmul_def fdiv_def Let_def r)
qed

lemma one_distributable: "distributable one_table 34000 = 34000 / 3"
  by (simp add: distributable_def zero_volume_collections_def collection_total_def
        collection_names_def one_table_def one_yeetard_def dict_get_def)

lemma uneven_by_collection:
  "distribute_by_collection uneven_table 34000 =
     Inr [(''0xa'', 8307421187640889 / 4398046511104),
          (''0xb'', 8307421187640889 / 1099511627776),
          (''0xc'', 8307421187640889 / 4398046511104)]"
proof -
  have r:
    "rnd (1 / 6) = 6004799503160661 / 36028797018963968"
    "rnd (2 / 3) = 6004799503160661 / 9007199254740992"
    "rnd 1 = 1"
    "rnd 5 = 5"
    "rnd 6 = 6"
    "rnd (37413298965069270455029180690887 / 19807040628566084398385987584) = 8307421187640889 / 4398046511104"
    "rnd (8307421187640889 / 4398046511104) = 8307421187640889 / 4398046511104"
    "rnd (37413298965069270455029180690887 / 4951760157141521099596496896) = 8307421187640889 / 1099511627776"
    "rnd (8307421187640889 / 1099511627776) = 8307421187640889 / 1099511627776"
    "rnd (34000 / 3) = 6230565890730667 / 549755813888"
    by code_simp+
  show ?thesis
    by (simp add: distribute_by_collection_def collection_volumes_init_def uneven_table_def
          dict_get_def pysum_def fadd_def fmul_def fdiv_def Let_def r)
qed

theorem by_collection_sum_witness:
  "valid_table uneven_table \<and> table_in_range uneven_table
   \<and> distribute_by_collection uneven_table TOTAL_BERA_TOKENS =
     Inr [(''0xa'', 8307421187640889 / 4398046511104),
          (''0xb'', 8307421187640889 / 1099511627776),
          (''0xc'', 8307421187640889 / 4398046511104)]
   \<and> (1 - unit_roundoff) ^ 12 / (1 + unit_roundoff) ^ 3 * (34000 / 3)
        \<le> 24922263562922667 / 2199023255552
   \<and> 24922263562922667 / 2199023255552
        \<le> (1 + unit_roundoff) ^ 12 / (1 - unit_roundoff) ^ 3 * (34000 / 3)"
proof -
  have l: "3 * length uneven_table + 3 = 12" "length uneven_table = 3"
    by (simp_all add: uneven_table_def)
  have d: "distributable uneven_table TOTAL_BERA_TOKENS = 34000 / 3"
    by (simp add: distributable_def zero_volume_collections_def collection_total_def
          collection_names_def uneven_table_def dict_get_def TOTAL_BERA_TOKENS_def)
  have u: "distribute_by_collection uneven_table TOTAL_BERA_TOKENS =
     Inr [(''0xa'', 8307421187640889 / 4398046511104),
          (''0xb'', 8307421187640889 / 1099511627776),
          (''0xc'', 8307421187640889 / 4398046511104)]"
    using uneven_by_collection by (simp only: TOTAL_BERA_TOKENS_def)
  from by_collection_sum[OF uneven_valid uneven_in_range] u
  have "(1 - unit_roundoff) ^ 12 / (1 + unit_roundoff) ^ 3 * (34000 / 3)
        \<le> 24922263562922667 / 2199023255552
   \<and> 24922263562922667 / 2199023255552
        \<le> (1 + unit_roundoff) ^ 12 / (1 - unit_roundoff) ^ 3 * (34000 / 3)"
    unfolding l d by auto
  then show ?thesis using u uneven_valid uneven_in_range by simp
qed

text \<open>
  C1 as stated fails. One trade on the YEETARD pool: the account receives the float
  nearest to 34000 / 3, which is neither 34000 / 3, the supply less the shares of the two
  collections without volume, nor the float that \<^verbatim>\<open>34000 - 2 * (34000 / 3)\<close> evaluates to.
\<close>

theorem by_collection_sum_counterexample:
  "calculate_volumes one_trade = Inr one_table
   \<and> 0 < collection_total one_table ''YEETARD''
   \<and> distribute_by_collection one_table 34000 = Inr [(''0xa'', 6230565890730667 / 549755813888)]
   \<and> sum_list (map snd [(''0xa'', 6230565890730667 / 549755813888 :: rat)])
       = 6230565890730667 / 549755813888
   \<and> distributable one_table 34000 = 34000 / 3
   \<and> (6230565890730667 / 549755813888 :: rat) \<noteq> 34000 / 3
   \<and> fsub 34000 (fmul 2 (rnd (34000 / 3))) = 3115282945365333 / 274877906944
   \<and> (6230565890730667 / 549755813888 :: rat) \<noteq> 3115282945365333 / 274877906944"
proof -
  have r: "rnd (34000 / 3) = 6230565890730667 / 549755813888"
    "rnd (6230565890730667 / 274877906944) = 6230565890730667 / 274877906944"
    "rnd (3115282945365333 / 274877906944) = 3115282945365333 / 274877906944"
    by code_simp+
  have f: "fsub 34000 (fmul 2 (rnd (34000 / 3))) = 3115282945365333 / 274877906944"
    by (simp add: fsub_def fmul_def r)
  have c: "0 < collection_total one_table ''YEETARD''"
    by (simp add: collection_total_def one_table_def one_yeetard_def dict_get_def)
  show ?thesis using one_aggregated one_by_collection one_distributable f c by simp
qed

text \<open>
  C10. On a table of the aggregation and a supply that is not negative, neither
  distribution raises. The by-total-volume distribution has the keys of the table, in its
  order, and an address of total volume 0 has the explicit allocation 0. Every key of the
  by-collection distribution is an address of the table with a strictly positive volume
  in some collection. No allocation of either is negative.
\<close>

theorem distribution_keys_nonneg:
  assumes "valid_table ad" and "0 \<le> T"
  shows "\<exists>dv dc. distribute_by_total_volume ad T = Inr dv \<and> distribute_by_collection ad T = Inr dc
           \<and> map fst dv = map fst ad
           \<and> (\<forall>ar \<in> set ad. total_volume (snd ar) = 0 \<longrightarrow> map_of dv (fst ar) = Some 0)
           \<and> (\<forall>a \<in> fst ` set dc. \<exists>d c v. (a, d) \<in> set ad \<and> (c, v) \<in> set (collections d) \<and> 0 < v)
           \<and> (\<forall>x \<in> set dv \<union> set dc. 0 \<le> snd x)"
proof -
  define tv where "tv = pysum (map (\<lambda>(a, d). total_volume d) ad)"
  define dv where "dv = map (\<lambda>ar. (fst ar, volume_share tv T (snd ar))) ad"
  have dd: "distinct (map fst ad)" using assms(1) by (simp add: valid_table_def)
  have nn: "\<forall>ar \<in> set ad. 0 \<le> total_volume (snd ar)"
    using assms(1) by (auto simp: valid_table_def valid_entry_def)
  have rv: "distribute_by_total_volume ad T = Inr dv"
    unfolding dv_def tv_def by (rule distribute_by_total_volume_eq[OF dd])
  have kv: "map fst dv = map fst ad" by (simp add: dv_def)
  have sh: "\<And>d. 0 \<le> total_volume d \<Longrightarrow> 0 \<le> volume_share tv T d"
    using assms(2) by (simp add: volume_share_def fmul_nonneg rnd_nonneg)
  have pv: "\<forall>x \<in> set dv. 0 \<le> snd x" using nn sh by (auto simp: dv_def)
  have zv: "\<forall>ar \<in> set ad. total_volume (snd ar) = 0 \<longrightarrow> map_of dv (fst ar) = Some 0"
  proof (intro ballI impI)
    fix ar assume ar: "ar \<in> set ad" and z: "total_volume (snd ar) = 0"
    have "(fst ar, volume_share tv T (snd ar)) \<in> set dv" using ar by (auto simp: dv_def)
    moreover have "distinct (map fst dv)" using dd kv by simp
    ultimately have "map_of dv (fst ar) = Some (volume_share tv T (snd ar))" by simp
    moreover have "volume_share tv T (snd ar) = 0"
      using z by (simp add: volume_share_def fmul_def rnd_zero)
    ultimately show "map_of dv (fst ar) = Some 0" by simp
  qed
  obtain dc where rc: "distribute_by_collection ad T = Inr dc"
    and w: "sum_within (collection_updates (tab (members ad)))
              (collection_ideal (rnd (T / 3)) (tab (members ad))) dc"
    and kc: "fst ` set dc \<subseteq> (\<Union>c \<in> set collection_names. fst ` set (members ad c))"
    using by_collection_within[OF assms] by blast
  have pc: "\<forall>x \<in> set dc. 0 \<le> snd x" using w by (simp add: sum_within_def)
  have mc: "\<forall>a \<in> fst ` set dc. \<exists>d c v. (a, d) \<in> set ad \<and> (c, v) \<in> set (collections d) \<and> 0 < v"
  proof
    fix a assume "a \<in> fst ` set dc"
    then obtain c av where "av \<in> set (members ad c)" "fst av = a" using kc by auto
    then show "\<exists>d c v. (a, d) \<in> set ad \<and> (c, v) \<in> set (collections d) \<and> 0 < v"
      using members_positive[of ad c] by blast
  qed
  show ?thesis using rv rc kv zv mc pv pc by blast
qed

theorem distribution_keys_nonneg_witness:
  "distribute_by_total_volume idle_table 34000 = Inr [(''0xa'', 34000), (''0xd'', 0)]
   \<and> distribute_by_collection idle_table 34000 = Inr [(''0xa'', 6230565890730667 / 549755813888)]
   \<and> map fst [(''0xa'', 34000 :: rat), (''0xd'', 0)] = map fst idle_table"
proof -
  have r: "rnd 1 = 1" "rnd 34000 = 34000"
    "rnd (34000 / 3) = 6230565890730667 / 549755813888"
    "rnd (6230565890730667 / 549755813888) = 6230565890730667 / 549755813888"
    by code_simp+
  have v: "valid_table idle_table"
    by (simp add: valid_table_def valid_entry_def idle_table_def one_yeetard_def collection_names_def)
  have t: "(0::rat) \<le> 34000" by simp
  have a: "distribute_by_total_volume idle_table 34000 = Inr [(''0xa'', 34000), (''0xd'', 0)]"
    by (simp add: distribute_by_total_volume_def idle_table_def one_yeetard_def pysum_def
          fadd_def fmul_def fdiv_def r rnd_zero)
  have b: "distribute_by_collection idle_table 34000 = Inr [(''0xa'', 6230565890730667 / 549755813888)]"
    by (simp add: distribute_by_collection_def collection_volumes_init_def idle_table_def
          one_yeetard_def dict_get_def pysum_def fadd_def fmul_def fdiv_def Let_def r)
  from distribution_keys_nonneg[OF v t] a b
  show ?thesis by auto
qed

section \<open>Aggregation of a permuted input\<close>

lemma near_sum:
  assumes "\<forall>x \<in> set xs. 0 \<le> x" and "length xs \<le> k"
  shows "near k (sum_list xs) (foldl fadd 0 xs)"
proof -
  let ?l = "1 - unit_roundoff" and ?h = "1 + unit_roundoff"
  have l01: "0 \<le> ?l" "?l \<le> 1" "1 \<le> ?h" using u_pos by simp_all
  have S: "0 \<le> sum_list xs" using assms(1) by (intro sum_list_nonneg) auto
  have b: "?l ^ length xs * sum_list xs \<le> foldl fadd 0 xs"
      "foldl fadd 0 xs \<le> ?h ^ length xs * sum_list xs"
    using pysum_bounds[OF assms(1)] by (simp_all add: pysum_def)
  have "?l ^ k \<le> ?l ^ length xs" using l01 assms(2) by (intro power_decreasing) simp_all
  then have "?l ^ k * sum_list xs \<le> ?l ^ length xs * sum_list xs" using S by (rule mult_right_mono)
  moreover have "?h ^ length xs \<le> ?h ^ k" using l01 assms(2) by (intro power_increasing) simp_all
  then have "?h ^ length xs * sum_list xs \<le> ?h ^ k * sum_list xs" using S by (rule mult_right_mono)
  ultimately show ?thesis using b unfolding near_def by linarith
qed

lemma collections_foldl_keys:
  "fst ` set (collections (foldl apply_event r es)) =
     fst ` set (collections r) \<union> event_collection ` set es"
  by (induction es arbitrary: r) (auto simp: apply_event_def update_entry_def Let_def dom_update)

lemma collections_foldl_get:
  "dict_get (collections (foldl apply_event r es)) c 0 =
     foldl fadd (dict_get (collections r) c 0)
       (map event_volume (filter (\<lambda>e. event_collection e = c) es))"
proof (induction es arbitrary: r)
  case Nil
  then show ?case by simp
next
  case (Cons e es)
  have "dict_get (collections (apply_event r e)) c 0 =
          (if event_collection e = c then fadd (dict_get (collections r) c 0) (event_volume e)
           else dict_get (collections r) c 0)"
    by (auto simp: apply_event_def update_entry_def Let_def dict_get_update)
  then show ?case using Cons[of "apply_event r e"] by simp
qed

lemma sum_list_perm:
  fixes f :: "'a \<Rightarrow> rat"
  assumes "mset xs = mset ys"
  shows "sum_list (map f xs) = sum_list (map f ys)"
proof -
  have "mset (map f xs) = mset (map f ys)" using assms by simp
  then have "sum_mset (mset (map f xs)) = sum_mset (mset (map f ys))" by simp
  then show ?thesis by (simp only: sum_mset_sum_list)
qed

lemma trades_of_perm: "mset evs' = mset evs \<Longrightarrow> mset (trades_of a evs') = mset (trades_of a evs)"
  by (simp add: trades_of_def)

lemma entry_near:
  assumes "\<forall>e \<in> set es. uint256 (amount_in e)"
  defines "r \<equiv> foldl apply_event new_entry es"
  shows "tx_count r = int (length es)"
    and "fst ` set (collections r) = event_collection ` set es"
    and "near (length es) (sum_list (map event_volume es)) (total_volume r)"
    and "near (length es) (sum_list (map event_volume (filter (\<lambda>e. event_collection e = c) es)))
           (dict_get (collections r) c 0)"
proof -
  have nn: "\<forall>x \<in> set (map event_volume es). 0 \<le> x"
    using assms(1) by (auto intro: event_volume_nonneg)
  show "tx_count r = int (length es)" unfolding r_def by (simp add: tx_count_foldl new_entry_def)
  show "fst ` set (collections r) = event_collection ` set es"
    unfolding r_def by (simp add: collections_foldl_keys new_entry_def)
  have "total_volume r = foldl fadd 0 (map event_volume es)"
    unfolding r_def by (simp add: total_volume_foldl new_entry_def)
  then show "near (length es) (sum_list (map event_volume es)) (total_volume r)"
    using near_sum[OF nn] by simp
  let ?fs = "map event_volume (filter (\<lambda>e. event_collection e = c) es)"
  have nf: "\<forall>x \<in> set ?fs. 0 \<le> x" using assms(1) by (auto intro: event_volume_nonneg)
  have lf: "length ?fs \<le> length es" by simp
  have "dict_get (collections new_entry) c 0 = (0::rat)" by (simp add: new_entry_def dict_get_def)
  then have "dict_get (collections r) c 0 = foldl fadd 0 ?fs"
    unfolding r_def by (simp only: collections_foldl_get)
  then show "near (length es) (sum_list ?fs) (dict_get (collections r) c 0)"
    using near_sum[OF nf lf] by simp
qed


lemma all_pools_known:
  assumes "calculate_volumes evs = Inr ad" and "\<forall>e \<in> set evs. uint256 (amount_in e)"
  shows "\<forall>e \<in> set evs. known_pool (pool e)"
proof (rule ccontr)
  assume "\<not> (\<forall>e \<in> set evs. known_pool (pool e))"
  then have "\<exists>e \<in> set evs. \<not> known_pool (pool e)" by simp
  from loop_unknown_pool[OF assms(2) this, of "[]"] assms(1)
  show False by (simp add: calculate_volumes_def)
qed

text \<open>
  C5, as the code has it. Take at most \<open>2^32\<close> events with 256-bit amounts that
  \<open>calculate_volumes\<close> accepts, and any permutation of them. The permutation is accepted
  too, and its table has the same addresses, with the same transaction count and the same
  collections for each. The volumes are float sums taken in input order: in both tables
  the total volume of an address, and its volume on each collection, is the exact sum of
  the volumes of its events up to k roundings, k its transaction count; the two tables
  need not store the same float.
\<close>

theorem permuted_totals_near:
  assumes "mset evs' = mset evs" and "calculate_volumes evs = Inr ad"
    and "\<forall>e \<in> set evs. uint256 (amount_in e)" and "length evs \<le> 2 ^ 32"
  shows "\<exists>ad'. calculate_volumes evs' = Inr ad' \<and> fst ` set ad' = fst ` set ad
           \<and> (\<forall>a \<in> fst ` set ad. \<exists>r r'. map_of ad a = Some r \<and> map_of ad' a = Some r'
                  \<and> tx_count r' = tx_count r
                  \<and> fst ` set (collections r') = fst ` set (collections r)
                  \<and> near (nat (tx_count r)) (exact_volume a evs) (total_volume r)
                  \<and> near (nat (tx_count r)) (exact_volume a evs) (total_volume r')
                  \<and> (\<forall>c. near (nat (tx_count r)) (exact_collection_volume a c evs)
                             (dict_get (collections r) c 0)
                        \<and> near (nat (tx_count r)) (exact_collection_volume a c evs)
                             (dict_get (collections r') c 0)))"
proof -
  have se: "set evs' = set evs" using assms(1) by (rule mset_eq_setD)
  have u': "\<forall>e \<in> set evs'. uint256 (amount_in e)" using assms(3) se by simp
  have "\<forall>e \<in> set evs'. uint256 (amount_in e) \<and> known_pool (pool e)"
    using all_pools_known[OF assms(2,3)] assms(3) se by simp
  then obtain ad' where ad': "calculate_volumes evs' = Inr ad'"
    using loop_known_pools[of evs' "[]"] by (auto simp: calculate_volumes_def)
  have k: "fst ` set ad = (\<lambda>e. lower (address e)) ` set evs"
    using loop_keys[of "[]" evs ad] assms(2) by (simp add: calculate_volumes_def)
  have k': "fst ` set ad' = (\<lambda>e. lower (address e)) ` set evs'"
    using loop_keys[of "[]" evs' ad'] ad' by (simp add: calculate_volumes_def)
  have per: "\<forall>a \<in> fst ` set ad. \<exists>r r'. map_of ad a = Some r \<and> map_of ad' a = Some r'
                  \<and> tx_count r' = tx_count r
                  \<and> fst ` set (collections r') = fst ` set (collections r)
                  \<and> near (nat (tx_count r)) (exact_volume a evs) (total_volume r)
                  \<and> near (nat (tx_count r)) (exact_volume a evs) (total_volume r')
                  \<and> (\<forall>c. near (nat (tx_count r)) (exact_collection_volume a c evs)
                             (dict_get (collections r) c 0)
                        \<and> near (nat (tx_count r)) (exact_collection_volume a c evs)
                             (dict_get (collections r') c 0))"
  proof
    fix a assume "a \<in> fst ` set ad"
    then obtain e where e: "e \<in> set evs" "a = lower (address e)" using k by auto
    have e': "e \<in> set evs'" using e(1) se by simp
    define es where "es = trades_of a evs"
    define es' where "es' = trades_of a evs'"
    define r where "r = foldl apply_event new_entry es"
    define r' where "r' = foldl apply_event new_entry es'"
    have m: "map_of ad a = Some r"
      using calculate_volumes_entry(2)[OF assms(2) e(1)] unfolding e(2) r_def es_def by simp
    have m': "map_of ad' a = Some r'"
      using calculate_volumes_entry(2)[OF ad' e'] unfolding e(2) r'_def es'_def by simp
    have p: "mset es' = mset es" unfolding es_def es'_def by (rule trades_of_perm[OF assms(1)])
    have len: "length es' = length es" using p by (rule mset_eq_length)
    have ss: "set es' = set es" using p by (rule mset_eq_setD)
    have ue: "\<forall>e \<in> set es. uint256 (amount_in e)" using assms(3) by (simp add: es_def trades_of_def)
    have ue': "\<forall>e \<in> set es'. uint256 (amount_in e)" using ue ss by simp
    note n = entry_near[OF ue, folded r_def]
    note n' = entry_near[OF ue', folded r'_def]
    have t: "nat (tx_count r) = length es" using n(1) by simp
    have sv: "sum_list (map event_volume es') = sum_list (map event_volume es)"
      by (rule sum_list_perm[OF p])
    have sc: "\<And>c. sum_list (map event_volume (filter (\<lambda>e. event_collection e = c) es'))
                  = sum_list (map event_volume (filter (\<lambda>e. event_collection e = c) es))"
      by (rule sum_list_perm) (simp add: p)
    have ev: "exact_volume a evs = sum_list (map event_volume es)"
      by (simp add: exact_volume_def es_def)
    have ec: "\<And>c. exact_collection_volume a c evs
                 = sum_list (map event_volume (filter (\<lambda>e. event_collection e = c) es))"
      by (simp add: exact_collection_volume_def es_def)
    have c1: "tx_count r' = tx_count r" using n(1) n'(1) len by simp
    have c2: "fst ` set (collections r') = fst ` set (collections r)" using n(2) n'(2) ss by simp
    have c3: "near (nat (tx_count r)) (exact_volume a evs) (total_volume r)"
      unfolding t ev by (rule n(3))
    have c4: "near (nat (tx_count r)) (exact_volume a evs) (total_volume r')"
      unfolding t ev using n'(3) unfolding len sv .
    have c5: "\<forall>c. near (nat (tx_count r)) (exact_collection_volume a c evs)
                             (dict_get (collections r) c 0)
                        \<and> near (nat (tx_count r)) (exact_collection_volume a c evs)
                             (dict_get (collections r') c 0)"
    proof
      fix c
      show "near (nat (tx_count r)) (exact_collection_volume a c evs) (dict_get (collections r) c 0)
          \<and> near (nat (tx_count r)) (exact_collection_volume a c evs) (dict_get (collections r') c 0)"
        unfolding t ec using n(4)[of c] n'(4)[of c] unfolding len sc by simp
    qed
    show "\<exists>r r'. map_of ad a = Some r \<and> map_of ad' a = Some r'
                  \<and> tx_count r' = tx_count r
                  \<and> fst ` set (collections r') = fst ` set (collections r)
                  \<and> near (nat (tx_count r)) (exact_volume a evs) (total_volume r)
                  \<and> near (nat (tx_count r)) (exact_volume a evs) (total_volume r')
                  \<and> (\<forall>c. near (nat (tx_count r)) (exact_collection_volume a c evs)
                             (dict_get (collections r) c 0)
                        \<and> near (nat (tx_count r)) (exact_collection_volume a c evs)
                             (dict_get (collections r') c 0))"
      using m m' c1 c2 c3 c4 c5 by blast
  qed
  show ?thesis using ad' k k' se per by auto
qed

lemma drift_values:
  "rnd (1 / 10) = 3602879701896397 / 36028797018963968"
  "rnd (3602879701896397 / 36028797018963968) = 3602879701896397 / 36028797018963968"
  "rnd (1 / 5) = 3602879701896397 / 18014398509481984"
  "rnd (5404319552844595 / 18014398509481984) = 5404319552844595 / 18014398509481984"
  "rnd (3 / 10) = 5404319552844595 / 18014398509481984"
  "rnd (10808639105689191 / 36028797018963968) = 1351079888211149 / 4503599627370496"
  "rnd (1 / 2) = 1 / 2"
  "rnd (21617278211378381 / 36028797018963968) = 5404319552844595 / 9007199254740992"
  "rnd (10808639105689191 / 18014398509481984) = 1351079888211149 / 2251799813685248"
  "rnd 100000000000000000 = 100000000000000000"
  "rnd 200000000000000000 = 200000000000000000"
  "rnd 300000000000000000 = 300000000000000000"
  by code_simp+

lemma drift_wei:
  "wei_to_bera 100000000000000000 = Inr (3602879701896397 / 36028797018963968)"
  "wei_to_bera 200000000000000000 = Inr (3602879701896397 / 18014398509481984)"
  "wei_to_bera 300000000000000000 = Inr (5404319552844595 / 18014398509481984)"
  by (simp_all add: wei_to_bera_def int_to_float_def fdiv_def drift_values)

lemma drift_aggregated: "calculate_volumes drift_trades = Inr drift_table"
  by (simp add: calculate_volumes_def drift_trades_def drift_table_def trade_def
        add_event_def drift_wei lower_def lower_char_def YEETARD_POOL_def collection_map_def
        dict_get_def new_entry_def update_entry_def fadd_def drift_values Let_def)

lemma drift_aggregated_rev: "calculate_volumes (rev drift_trades) = Inr drift_table_rev"
  by (simp add: calculate_volumes_def drift_trades_def drift_table_rev_def trade_def
        add_event_def drift_wei lower_def lower_char_def YEETARD_POOL_def collection_map_def
        dict_get_def new_entry_def update_entry_def fadd_def drift_values Let_def)

theorem permuted_totals_near_witness:
  "calculate_volumes (rev drift_trades) = Inr drift_table_rev
   \<and> fst ` set drift_table_rev = fst ` set drift_table
   \<and> exact_volume ''0xa'' drift_trades = 21617278211378381 / 36028797018963968
   \<and> near 3 (21617278211378381 / 36028797018963968) (1351079888211149 / 2251799813685248)
   \<and> near 3 (21617278211378381 / 36028797018963968) (5404319552844595 / 9007199254740992)"
proof -
  have p: "mset (rev drift_trades) = mset drift_trades" by simp
  have u: "\<forall>e \<in> set drift_trades. uint256 (amount_in e)"
    by (simp add: drift_trades_def trade_def uint256_def)
  have ev: "event_volume (trade YEETARD_POOL ''0xa'' 100000000000000000 0) = 3602879701896397 / 36028797018963968"
    "event_volume (trade YEETARD_POOL ''0xa'' 200000000000000000 1) = 3602879701896397 / 18014398509481984"
    "event_volume (trade YEETARD_POOL ''0xa'' 300000000000000000 2) = 5404319552844595 / 18014398509481984"
    by (simp_all add: event_volume_def trade_def drift_wei)
  have ta: "\<And>p a n i. address (trade p a n i) = a" by (simp add: trade_def)
  have lw: "lower ''0xa'' = ''0xa''" by (simp add: lower_def lower_char_def)
  have x: "exact_volume ''0xa'' drift_trades = 21617278211378381 / 36028797018963968"
    by (simp add: exact_volume_def trades_of_def drift_trades_def ta lw ev)
  have n: "length drift_trades \<le> 2 ^ 32" by (simp add: drift_trades_def)
  from permuted_totals_near[OF p drift_aggregated u n]
  obtain ad' where ad': "calculate_volumes (rev drift_trades) = Inr ad'"
      "fst ` set ad' = fst ` set drift_table"
      and al: "\<forall>a \<in> fst ` set drift_table. \<exists>r r'. map_of drift_table a = Some r \<and> map_of ad' a = Some r'
                  \<and> tx_count r' = tx_count r
                  \<and> fst ` set (collections r') = fst ` set (collections r)
                  \<and> near (nat (tx_count r)) (exact_volume a drift_trades) (total_volume r)
                  \<and> near (nat (tx_count r)) (exact_volume a drift_trades) (total_volume r')
                  \<and> (\<forall>c. near (nat (tx_count r)) (exact_collection_volume a c drift_trades)
                             (dict_get (collections r) c 0)
                        \<and> near (nat (tx_count r)) (exact_collection_volume a c drift_trades)
                             (dict_get (collections r') c 0))"
    by (elim exE conjE)
  have e: "ad' = drift_table_rev" using ad'(1) drift_aggregated_rev by simp
  have k: "''0xa'' \<in> fst ` set drift_table" by (simp add: drift_table_def)
  from bspec[OF al k] obtain r r' where r: "map_of drift_table ''0xa'' = Some r"
      "map_of ad' ''0xa'' = Some r'"
      "near (nat (tx_count r)) (exact_volume ''0xa'' drift_trades) (total_volume r)"
      "near (nat (tx_count r)) (exact_volume ''0xa'' drift_trades) (total_volume r')"
    by (elim exE conjE)
  have r1: "r = \<lparr>total_volume = 1351079888211149 / 2251799813685248,
                 collections = [(''YEETARD'', 1351079888211149 / 2251799813685248)],
                 tx_count = 3\<rparr>"
    using r(1) by (simp add: drift_table_def)
  have r2: "r' = \<lparr>total_volume = 5404319552844595 / 9007199254740992,
                 collections = [(''YEETARD'', 5404319552844595 / 9007199254740992)],
                 tx_count = 3\<rparr>"
    using r(2) unfolding e by (simp add: drift_table_rev_def)
  have t: "nat (tx_count r) = 3" "total_volume r = 1351079888211149 / 2251799813685248"
    unfolding r1 by simp_all
  have t': "total_volume r' = 5404319552844595 / 9007199254740992"
    unfolding r2 by simp
  have n1: "near 3 (21617278211378381 / 36028797018963968) (1351079888211149 / 2251799813685248)"
    using r(3) unfolding t x .
  have n2: "near 3 (21617278211378381 / 36028797018963968) (5404319552844595 / 9007199254740992)"
    using r(4) unfolding t t' x .
  have f: "fst ` set drift_table_rev = fst ` set drift_table"
    by (simp add: drift_table_rev_def drift_table_def)
  show ?thesis
    by (intro conjI drift_aggregated_rev f x n1 n2)
qed

text \<open>
  C5 as stated fails: trades of 0.1, 0.2 and 0.3 tokens give the total 0.6000000000000001
  in this order and 0.6 in the reverse order.
\<close>

theorem permutation_counterexample:
  "mset (rev drift_trades) = mset drift_trades
   \<and> calculate_volumes drift_trades = Inr drift_table
   \<and> calculate_volumes (rev drift_trades) = Inr drift_table_rev
   \<and> map_of drift_table ''0xa'' \<noteq> map_of drift_table_rev ''0xa''
   \<and> total_volume (the (map_of drift_table ''0xa'')) = 1351079888211149 / 2251799813685248
   \<and> total_volume (the (map_of drift_table_rev ''0xa'')) = 5404319552844595 / 9007199254740992"
  using drift_aggregated drift_aggregated_rev
  by (simp add: drift_table_def drift_table_rev_def)

end
